theory Spec2Isabelle
  imports Main "HOL-Library.Multiset"
begin

section \<open>Strings\<close>

text \<open>
  The migrator is a Node.js script. Its strings are modelled as \<open>string\<close>: one \<open>char\<close> stands
  for one UTF-16 code unit in the range 0..255 (Latin-1). Code units above 255 are outside the
  model; of those, only the Unicode spaces that \<^verbatim>\<open>\s\<close> matches would behave differently from the
  characters modelled here.

  \<^verbatim>\<open>\w\<close> is \<^verbatim>\<open>[A-Za-z0-9_]\<close>; \<^verbatim>\<open>\s\<close> is, within Latin-1, TAB, LF, VT, FF, CR, SPACE and the
  no-break space U+00A0.
\<close>

definition isWordChar :: "char \<Rightarrow> bool" where
  "isWordChar c =
     (let n = (of_char c :: nat)
      in (48 \<le> n \<and> n \<le> 57) \<or> (65 \<le> n \<and> n \<le> 90) \<or> n = 95 \<or> (97 \<le> n \<and> n \<le> 122))"

definition isNameChar :: "char \<Rightarrow> bool" where
  \<comment> \<open>the complement of the class \<^verbatim>\<open>[^\w_-]\<close>\<close>
  "isNameChar c = (isWordChar c \<or> c = CHR ''_'' \<or> c = CHR ''-'')"

definition isSpace :: "char \<Rightarrow> bool" where
  "isSpace c = (of_char c \<in> {9, 10, 11, 12, 13, 32, 160 :: nat})"

definition toLowerChar :: "char \<Rightarrow> char" where
  \<comment> \<open>the Latin-1 letters with a lower-case form: A-Z, and U+00C0..U+00DE without U+00D7\<close>
  "toLowerChar c =
     (let n = (of_char c :: nat)
      in if (65 \<le> n \<and> n \<le> 90) \<or> (192 \<le> n \<and> n \<le> 222 \<and> n \<noteq> 215)
         then char_of (n + 32) else c)"

definition toLowerCase :: "string \<Rightarrow> string" where
  "toLowerCase s = map toLowerChar s"

text \<open>
  \<^verbatim>\<open>s.replace(/[^\w_-]+/g, "_")\<close>: scanning from the left, every match of the class, extended
  greedily over the characters that follow, becomes one underscore.
\<close>

function replaceRuns :: "string \<Rightarrow> string" where
  "replaceRuns [] = []"
| "replaceRuns (c # cs) =
     (if isNameChar c then c # replaceRuns cs
      else CHR ''_'' # replaceRuns (dropWhile (\<lambda>d. \<not> isNameChar d) cs))"
  by pat_completeness auto
termination
  by (relation "measure length") (auto simp: length_dropWhile_le less_Suc_eq_le)

text \<open>\<^verbatim>\<open>s.replace(/^[_-]/, "")\<close>: one leading underscore or dash is removed.\<close>

definition stripLeading :: "string \<Rightarrow> string" where
  "stripLeading s =
     (case s of [] \<Rightarrow> []
      | c # cs \<Rightarrow> if c = CHR ''_'' \<or> c = CHR ''-'' then cs else s)"

text \<open>
  \<^verbatim>\<open>function normalizedServiceName(serviceName) {
    return serviceName.replace(/[^\w_-]+/g, "_").toLowerCase().replace(/^[_-]/, "")
  }\<close>
  The same function stands in both versions of the script (\<^verbatim>\<open>src/index.js\<close> and
  \<^verbatim>\<open>src/unnamed/part_000\<close>).
\<close>

definition normalizedServiceName :: "string \<Rightarrow> string" where
  "normalizedServiceName serviceName = stripLeading (toLowerCase (replaceRuns serviceName))"

text \<open>
  The specification's wording of the normalizer, for comparison with the code: lowercase,
  replace every character outside \<^verbatim>\<open>[A-Za-z0-9_-]\<close> with an underscore, strip one leading
  underscore or dash.
\<close>

definition replaceEachChar :: "string \<Rightarrow> string" where
  "replaceEachChar s = map (\<lambda>c. if isNameChar c then c else CHR ''_'') s"

definition normalize_spec :: "string \<Rightarrow> string" where
  "normalize_spec name = stripLeading (replaceEachChar (toLowerCase name))"

text \<open>
  A description of what the code does instead: the string is cut into its maximal runs of
  characters of one kind (inside the class \<^verbatim>\<open>[A-Za-z0-9_-]\<close>, or outside it), and every run of
  the second kind becomes one underscore.
\<close>

function runs :: "string \<Rightarrow> string list" where
  "runs [] = []"
| "runs (c # cs) =
     (c # takeWhile (\<lambda>d. isNameChar d = isNameChar c) cs)
       # runs (dropWhile (\<lambda>d. isNameChar d = isNameChar c) cs)"
  by pat_completeness auto
termination
  by (relation "measure length") (auto simp: length_dropWhile_le less_Suc_eq_le)

fun alternating :: "string list \<Rightarrow> bool" where
  "alternating (a # b # rs) = (isNameChar (hd a) \<noteq> isNameChar (hd b) \<and> alternating (b # rs))"
| "alternating rs = True"

definition uniform :: "string \<Rightarrow> bool" where
  "uniform r = (r \<noteq> [] \<and> (list_all isNameChar r \<or> list_all (\<lambda>c. \<not> isNameChar c) r))"

definition collapseRun :: "string \<Rightarrow> string" where
  "collapseRun r = (if list_all isNameChar r then r else ''_'')"

definition isLowerNameChar :: "char \<Rightarrow> bool" where
  \<comment> \<open>the class \<^verbatim>\<open>[a-z0-9_-]\<close>\<close>
  "isLowerNameChar c =
     (let n = (of_char c :: nat)
      in (48 \<le> n \<and> n \<le> 57) \<or> (97 \<le> n \<and> n \<le> 122) \<or> c = CHR ''_'' \<or> c = CHR ''-'')"

definition startsWithSeparator :: "string \<Rightarrow> bool" where
  "startsWithSeparator s = (case s of [] \<Rightarrow> False | c # _ \<Rightarrow> c = CHR ''_'' \<or> c = CHR ''-'')"

text \<open>
  \<^verbatim>\<open>String.prototype.replace\<close> with a string pattern replaces the first occurrence only, and
  reads its replacement string as a template: \<^verbatim>\<open>$$\<close> stands for a dollar sign, \<^verbatim>\<open>$&\<close> for the
  matched text, a dollar sign with a backquote (code 0x60) for the text before the match and a
  dollar sign with an apostrophe (code 0x27) for the text after it. A
  string pattern has no capture groups, so every other \<^verbatim>\<open>$\<close> stands for itself.
\<close>

fun getSubstitution :: "string \<Rightarrow> string \<Rightarrow> string \<Rightarrow> string \<Rightarrow> string" where
  "getSubstitution matched preceding following [] = []"
| "getSubstitution matched preceding following [c] = [c]"
| "getSubstitution matched preceding following (c # d # ds) =
     (if c = CHR ''$'' \<and> d = CHR ''$''
      then CHR ''$'' # getSubstitution matched preceding following ds
      else if c = CHR ''$'' \<and> d = CHR ''&''
      then matched @ getSubstitution matched preceding following ds
      else if c = CHR ''$'' \<and> d = CHR 0x60
      then preceding @ getSubstitution matched preceding following ds
      else if c = CHR ''$'' \<and> d = CHR 0x27
      then following @ getSubstitution matched preceding following ds
      else c # getSubstitution matched preceding following (d # ds))"

fun replaceFrom :: "string \<Rightarrow> string \<Rightarrow> string \<Rightarrow> string \<Rightarrow> string" where
  "replaceFrom preceding pattern replacement [] =
     (if pattern = [] then getSubstitution [] preceding [] replacement else [])"
| "replaceFrom preceding pattern replacement (c # cs) =
     (if take (length pattern) (c # cs) = pattern
      then getSubstitution pattern preceding (drop (length pattern) (c # cs)) replacement
             @ drop (length pattern) (c # cs)
      else c # replaceFrom (preceding @ [c]) pattern replacement cs)"

definition replace :: "string \<Rightarrow> string \<Rightarrow> string \<Rightarrow> string" where
  "replace s pattern replacement = replaceFrom [] pattern replacement s"

text \<open>The pattern stands in \<open>s\<close> at position \<open>p\<close>.\<close>

definition occursAt :: "string \<Rightarrow> string \<Rightarrow> nat \<Rightarrow> bool" where
  "occursAt pattern s p = (take (length pattern) (drop p s) = pattern)"

text \<open>
  \<^verbatim>\<open>String.prototype.split\<close> with a string separator: the pieces between the occurrences of the
  separator, found from the left without overlap. An empty separator splits into code units.
\<close>

fun splitFrom :: "string \<Rightarrow> string \<Rightarrow> string \<Rightarrow> string list" where
  "splitFrom separator piece [] = [piece]"
| "splitFrom separator piece (c # cs) =
     (if take (length separator) (c # cs) = separator
      then piece # splitFrom separator [] (drop (length separator - 1) cs)
      else splitFrom separator (piece @ [c]) cs)"

definition split :: "string \<Rightarrow> string \<Rightarrow> string list" where
  "split separator s = (if separator = [] then map (\<lambda>c. [c]) s else splitFrom separator [] s)"

text \<open>
  The two regular expressions of the script have the shape \<^verbatim>\<open>/literal[^\s]+/\<close>: the literal text,
  then one or more characters that are not white space, as many as there are.
  \<open>matchesAt literal s\<close>: the expression matches at the start of \<open>s\<close>.
  \<open>hasMatch\<close> is the truth value of \<^verbatim>\<open>s.match(/literal[^\s]+/)\<close>, which is \<^verbatim>\<open>null\<close> without a match.
  \<open>matchAll\<close> is \<^verbatim>\<open>s.match(/literal([^\s]+)/g)\<close>: the matched substrings from left to right, each
  search starting where the last match ended; the empty list stands for \<^verbatim>\<open>null\<close>.
\<close>

definition matchesAt :: "string \<Rightarrow> string \<Rightarrow> bool" where
  "matchesAt literal s =
     (take (length literal) s = literal \<and>
      (case drop (length literal) s of [] \<Rightarrow> False | d # _ \<Rightarrow> \<not> isSpace d))"

fun hasMatch :: "string \<Rightarrow> string \<Rightarrow> bool" where
  "hasMatch literal [] = False"
| "hasMatch literal (c # cs) = (matchesAt literal (c # cs) \<or> hasMatch literal cs)"

function matchAll :: "string \<Rightarrow> string \<Rightarrow> string list" where
  "matchAll literal [] = []"
| "matchAll literal (c # cs) =
     (if matchesAt literal (c # cs)
      then (literal @ takeWhile (\<lambda>d. \<not> isSpace d) (drop (length literal) (c # cs)))
             # matchAll literal (dropWhile (\<lambda>d. \<not> isSpace d) (drop (length literal) (c # cs)))
      else matchAll literal cs)"
  by pat_completeness auto
termination
proof (relation "measure (\<lambda>(literal, s). length s)")
  show "wf (measure (\<lambda>(literal, s). length s))" by simp
next
  fix literal :: string and c cs
  assume m: "matchesAt literal (c # cs)"
  let ?rest = "drop (length literal) (c # cs)"
  from m obtain d ds where r: "?rest = d # ds" and d: "\<not> isSpace d"
    by (auto simp: matchesAt_def split: list.splits)
  have "length (dropWhile (\<lambda>d. \<not> isSpace d) ?rest) \<le> length ds"
    unfolding r using d by (simp add: length_dropWhile_le)
  moreover have "length ds < length ?rest" unfolding r by simp
  moreover have "length ?rest \<le> length (c # cs)" by simp
  ultimately show "((literal, dropWhile (\<lambda>d. \<not> isSpace d) ?rest), (literal, c # cs))
      \<in> measure (\<lambda>(literal, s). length s)"
    by simp
next
  fix literal :: string and c cs
  show "((literal, cs), (literal, c # cs)) \<in> measure (\<lambda>(literal, s). length s)" by simp
qed

section \<open>Data\<close>

text \<open>
  The JSON objects of the three services, with the fields the script reads. A PagerDuty service
  has \<^verbatim>\<open>id\<close> and \<^verbatim>\<open>name\<close>; a Rootly service has \<^verbatim>\<open>id\<close> and \<^verbatim>\<open>attributes.pagerduty_id\<close> (\<^verbatim>\<open>null\<close>
  when the service is not linked); a Datadog monitor has \<^verbatim>\<open>id\<close>, \<^verbatim>\<open>name\<close>, \<^verbatim>\<open>message\<close>, \<^verbatim>\<open>type\<close>
  and \<^verbatim>\<open>options\<close>, an object that may be absent and that may have a \<^verbatim>\<open>synthetics_check_id\<close>.
  A monitor's numeric id is kept as the text that a template literal makes of it.
\<close>

record pagerduty_service =
  pd_id :: string
  pd_name :: string

record rootly_service =
  rootly_id :: string
  pagerduty_id :: "string option"

record monitor_options =
  synthetics_check_id :: "string option"

record datadog_monitor =
  monitor_id :: string
  monitor_name :: string
  message :: string
  monitor_type :: string
  options :: "monitor_options option"

text \<open>
  An entry of the \<^verbatim>\<open>results\<close> array. The script pushes objects with the keys \<^verbatim>\<open>monitor\<close>,
  \<^verbatim>\<open>old\<close>, \<^verbatim>\<open>new\<close>, \<^verbatim>\<open>error\<close> (from \<^verbatim>\<open>processMonitor\<close>) or \<^verbatim>\<open>monitor\<close>, \<^verbatim>\<open>oldMessage\<close>,
  \<^verbatim>\<open>newMessage\<close> (from \<^verbatim>\<open>updateDatadogMonitor\<close>); a key that is absent or \<^verbatim>\<open>null\<close> is \<open>None\<close>.
\<close>

record outcome =
  monitor :: datadog_monitor
  old :: "string option"
  new :: "string option"
  oldMessage :: "string option"
  newMessage :: "string option"
  error :: "string option"

text \<open>
  The outbound HTTP requests, with what identifies them: the paginated reads (\<open>limit\<close> and
  \<open>offset\<close> for PagerDuty, page number and size for Rootly and Datadog), the webhook creation
  (name, the Rootly service id in the payload, the secret header), the read of one monitor,
  and the two ways of writing a monitor back.
\<close>

datatype call =
    GetPagerdutyServices nat nat
  | GetRootlyServices nat nat
  | GetMonitors nat nat
  | PostWebhook string string "string option"
  | GetMonitor string
  | PutMonitor string datadog_monitor
  | PatchSynthetics string string

definition isWrite :: "call \<Rightarrow> bool" where
  "isWrite c = (case c of PostWebhook _ _ _ \<Rightarrow> True | PutMonitor _ _ \<Rightarrow> True
                | PatchSynthetics _ _ \<Rightarrow> True | _ \<Rightarrow> False)"

text \<open>
  How a request fails, as far as the script's handlers can tell: the rejection carries no
  \<^verbatim>\<open>response\<close> (a timeout after the 5 seconds configured, a network error), or it carries a
  response whose body has an \<^verbatim>\<open>errors\<close> array (\<open>Some\<close>) or has none (\<open>None\<close>).
  \<open>TypeError\<close> is the exception that reading a property of \<^verbatim>\<open>undefined\<close> throws.
\<close>

datatype http_error = NoResponse | ErrorResponse "string list option"

datatype exn = TypeError

text \<open>
  The remote services. A page of a listing is a function of the cursor it is asked with (a
  failed request or a payload without the list is \<open>Inl\<close>); the other replies may depend on
  every request sent so far, the one they answer being the last. The webhook creations of a
  monitor are all under way at once, so the remote side also decides in which order their
  replies arrive: \<open>webhookDelay\<close> is the time that the reply takes.
\<close>

record remote =
  pagerdutyServices :: "nat \<Rightarrow> http_error + pagerduty_service list"
  rootlyServices :: "nat \<Rightarrow> http_error + rootly_service list"
  monitors :: "nat \<Rightarrow> http_error + datadog_monitor list"
  webhookCreated :: "call list \<Rightarrow> http_error option"
  webhookDelay :: "call list \<Rightarrow> nat"
  monitorFetched :: "call list \<Rightarrow> http_error + datadog_monitor option"
  monitorWritten :: "call list \<Rightarrow> http_error option"

text \<open>
  The module-level variables \<^verbatim>\<open>pagerdutyServicesCache\<close>, \<^verbatim>\<open>rootlyServicesCache\<close> and
  \<^verbatim>\<open>results\<close>, and the requests sent so far. Console output is not modelled.
\<close>

record state =
  pagerdutyServicesCache :: "pagerduty_service list"
  rootlyServicesCache :: "rootly_service list"
  results :: "outcome list"
  calls :: "call list"

definition initial :: state where
  "initial = \<lparr>pagerdutyServicesCache = [], rootlyServicesCache = [], results = [], calls = []\<rparr>"

definition request :: "call \<Rightarrow> state \<Rightarrow> state" where
  "request c st = st\<lparr>calls := calls st @ [c]\<rparr>"

definition push :: "outcome \<Rightarrow> state \<Rightarrow> state" where
  "push r st = st\<lparr>results := results st @ [r]\<rparr>"

text \<open>
  \<^verbatim>\<open>process.env\<close>; a variable that is not set is \<open>None\<close>. \<open>truthy\<close> is JavaScript's truth value
  of a string that may be \<^verbatim>\<open>undefined\<close> or \<^verbatim>\<open>null\<close>: the empty string counts as false.
\<close>

type_synonym process_env = "string \<Rightarrow> string option"

definition truthy :: "string option \<Rightarrow> bool" where
  "truthy v = (case v of None \<Rightarrow> False | Some s \<Rightarrow> s \<noteq> [])"

definition DRY_RUN :: "process_env \<Rightarrow> string option" where
  "DRY_RUN env = env ''DRY_RUN''"

definition ROOTLY_ALERT_SOURCE_SECRET :: "process_env \<Rightarrow> string option" where
  "ROOTLY_ALERT_SOURCE_SECRET env = env ''ROOTLY_ALERT_SOURCE_SECRET''"

section \<open>Start-up\<close>

text \<open>
  \<^verbatim>\<open>const requiredEnvVars = ['DATADOG_API_KEY', 'DATADOG_APP_KEY', 'PAGERDUTY_API_TOKEN',
    'ROOTLY_API_TOKEN', 'ROOTLY_ALERT_SOURCE_SECRET'];
  requiredEnvVars.forEach(envVar => {
    if (!process.env[envVar]) {
      console.error(`Missing environment variable: ${envVar}`);
      process.exit(1);
    }
  });\<close>
  This is the list of \<^verbatim>\<open>src/unnamed/part_000\<close>, the version of the script with the caches, the
  results and the dry run. The older \<^verbatim>\<open>src/index.js\<close> has the same loop over a list without
  the last entry, and never reads that variable.

  \<open>missingEnvVar\<close> is the variable at which the loop calls \<^verbatim>\<open>process.exit(1)\<close>, if any.
\<close>

definition requiredEnvVars :: "string list" where
  "requiredEnvVars = [''DATADOG_API_KEY'', ''DATADOG_APP_KEY'', ''PAGERDUTY_API_TOKEN'',
     ''ROOTLY_API_TOKEN'', ''ROOTLY_ALERT_SOURCE_SECRET'']"

definition requiredEnvVars_index_js :: "string list" where
  "requiredEnvVars_index_js = [''DATADOG_API_KEY'', ''DATADOG_APP_KEY'', ''PAGERDUTY_API_TOKEN'',
     ''ROOTLY_API_TOKEN'']"

definition missingEnvVar :: "string list \<Rightarrow> process_env \<Rightarrow> string option" where
  "missingEnvVar required env = find (\<lambda>envVar. \<not> truthy (env envVar)) required"

section \<open>The paginated reads\<close>

text \<open>
  The three loops \<^verbatim>\<open>fetchAndCachePagerdutyServices\<close>, \<^verbatim>\<open>fetchAndCacheRootlyServices\<close> and
  \<^verbatim>\<open>fetchDatadogMonitors\<close> have one shape:
  \<^verbatim>\<open>while (true) {
    try {
      const response = await axiosInstance.get(...);
      const fetched = response.data...;
      if (fetched.length === 0) { break; }
      items.push(...fetched);
      cursor += step;
    } catch (error) { console.error(...); break; }
  }\<close>
  They differ in the request, the first cursor and the step: offset 0 in steps of the limit 25
  for PagerDuty, page 1 in steps of 1 for Rootly, page 0 in steps of 1 for Datadog. Nothing
  bounds the number of pages, so the loop is a partial function: \<open>None\<close> is a loop that never
  ends.
\<close>

partial_function (option) fetchPages ::
  "(nat \<Rightarrow> http_error + 'a list) \<Rightarrow> (nat \<Rightarrow> call) \<Rightarrow> nat \<Rightarrow> nat \<Rightarrow> 'a list \<Rightarrow> state
     \<Rightarrow> ('a list \<times> state) option" where
  "fetchPages page get step cursor items st =
     (case page cursor of
        Inl failure \<Rightarrow> Some (items, request (get cursor) st)
      | Inr fetched \<Rightarrow>
          if length fetched = 0 then Some (items, request (get cursor) st)
          else fetchPages page get step (cursor + step) (items @ fetched)
                 (request (get cursor) st))"

declare fetchPages.simps [code]

definition fetchAndCachePagerdutyServices :: "remote \<Rightarrow> state \<Rightarrow> state option" where
  "fetchAndCachePagerdutyServices rem st =
     map_option (\<lambda>(services, st'). st'\<lparr>pagerdutyServicesCache := services\<rparr>)
       (fetchPages (pagerdutyServices rem) (GetPagerdutyServices 25) 25 0 [] st)"

definition fetchAndCacheRootlyServices :: "remote \<Rightarrow> state \<Rightarrow> state option" where
  "fetchAndCacheRootlyServices rem st =
     map_option (\<lambda>(services, st'). st'\<lparr>rootlyServicesCache := services\<rparr>)
       (fetchPages (rootlyServices rem) (\<lambda>page. GetRootlyServices page 100) 1 1 [] st)"

definition fetchDatadogMonitors :: "remote \<Rightarrow> state \<Rightarrow> (datadog_monitor list \<times> state) option" where
  "fetchDatadogMonitors rem st =
     fetchPages (monitors rem) (\<lambda>page. GetMonitors page 100) 1 0 [] st"

text \<open>
  For stating what the loops return: the listing serves the pages \<open>ps\<close>, none of them empty,
  at the cursors \<open>first\<close>, \<open>first + step\<close>, ...; and it ends at a cursor, with an empty page or
  with a failure.
\<close>

definition serves :: "(nat \<Rightarrow> http_error + 'a list) \<Rightarrow> nat \<Rightarrow> nat \<Rightarrow> 'a list list \<Rightarrow> bool" where
  "serves page first step ps =
     (map (\<lambda>i. page (first + i * step)) [0..<length ps] = map Inr ps \<and> list_all (\<lambda>p. p \<noteq> []) ps)"

definition endsAt :: "(nat \<Rightarrow> http_error + 'a list) \<Rightarrow> nat \<Rightarrow> bool" where
  "endsAt page cursor = (case page cursor of Inl failure \<Rightarrow> True | Inr fetched \<Rightarrow> fetched = [])"

section \<open>Look-ups in the caches\<close>

text \<open>
  \<^verbatim>\<open>const service = pagerdutyServicesCache.find(s =>
    normalizedServiceName(s.name) === normalizedServiceName(serviceName));
  const serviceId = service ? service.id : null;\<close>
  and likewise \<^verbatim>\<open>rootlyServicesCache.find(s => s.attributes.pagerduty_id === pagerdutyId)\<close>.
\<close>

definition getPagerdutyServiceId :: "state \<Rightarrow> string \<Rightarrow> string option" where
  "getPagerdutyServiceId st serviceName =
     (case find (\<lambda>s. normalizedServiceName (pd_name s) = normalizedServiceName serviceName)
             (pagerdutyServicesCache st) of
        None \<Rightarrow> None
      | Some service \<Rightarrow> Some (pd_id service))"

definition fetchRootlyServiceId :: "state \<Rightarrow> string \<Rightarrow> string option" where
  "fetchRootlyServiceId st pagerdutyId =
     (case find (\<lambda>s. pagerduty_id s = Some pagerdutyId) (rootlyServicesCache st) of
        None \<Rightarrow> None
      | Some service \<Rightarrow> Some (rootly_id service))"

section \<open>Creating a webhook, rewriting a monitor\<close>

text \<open>
  \<^verbatim>\<open>async function createDatadogWebhook(serviceName, serviceId) {
    try {
      if (DRY_RUN) { console.log(...) }
      else { ...; await axiosInstance.post(..., {name: `rootly-${normalizedServiceName(serviceName)}`, ...}); ... }
    } catch (error) {
      if (error.response.data.errors[0] === "Webhook already exists") { console.log(...) }
      else { console.error('Error creating Datadog webhook:', error, error.response.data); }
    }
  }\<close>
  The handler reads \<^verbatim>\<open>error.response.data.errors[0]\<close> before anything else. Where the rejection has
  no response, or the body of the response has no \<^verbatim>\<open>errors\<close>, that read throws a \<open>TypeError\<close>
  out of the handler, and the promise of \<^verbatim>\<open>createDatadogWebhook\<close> is rejected. With an \<^verbatim>\<open>errors\<close>
  array the handler logs, whatever the first entry is, and the function returns.

  The function is asynchronous: its result is the request sent now and a promise, given here
  by the time at which it settles and by how it settles. In a dry run nothing is awaited, and
  the promise is settled at once.
\<close>

definition createDatadogWebhook ::
  "process_env \<Rightarrow> remote \<Rightarrow> string \<Rightarrow> string \<Rightarrow> state \<Rightarrow> (nat \<times> (exn + unit)) \<times> state" where
  "createDatadogWebhook env rem serviceName serviceId st =
     (if truthy (DRY_RUN env) then ((0, Inr ()), st)
      else
        let st' = request (PostWebhook (''rootly-'' @ normalizedServiceName serviceName) serviceId
                    (ROOTLY_ALERT_SOURCE_SECRET env)) st;
            arrival = webhookDelay rem (calls st')
        in case webhookCreated rem (calls st') of
             None \<Rightarrow> ((arrival, Inr ()), st')
           | Some NoResponse \<Rightarrow> ((arrival, Inl TypeError), st')
           | Some (ErrorResponse None) \<Rightarrow> ((arrival, Inl TypeError), st')
           | Some (ErrorResponse (Some errors)) \<Rightarrow> ((arrival, Inr ()), st'))"

text \<open>
  \<^verbatim>\<open>patches.forEach(([oldNotification, newNotification]) => {
    monitor.message = monitor.message.replace(oldNotification, `${oldNotification} ${newNotification}`);
  });\<close>
\<close>

definition applyPatches :: "string \<Rightarrow> (string \<times> string) list \<Rightarrow> string" where
  "applyPatches msg patches =
     foldl (\<lambda>m (oldNotification, newNotification).
              replace m oldNotification (oldNotification @ '' '' @ newNotification))
       msg patches"

text \<open>
  \<^verbatim>\<open>if (monitor.type === 'synthetics alert' && monitor.options.synthetics_check_id)\<close> chooses the
  PATCH of the synthetics test; every other monitor is PUT back whole. For a monitor of type
  \<^verbatim>\<open>synthetics alert\<close> that has no \<^verbatim>\<open>options\<close>, reading \<^verbatim>\<open>monitor.options.synthetics_check_id\<close>
  throws a \<open>TypeError\<close>, and no request is sent.
\<close>

definition writeRequest :: "string \<Rightarrow> datadog_monitor \<Rightarrow> exn + call" where
  "writeRequest monitorId m =
     (if monitor_type m = ''synthetics alert''
      then (case options m of
              None \<Rightarrow> Inl TypeError
            | Some opts \<Rightarrow>
                if truthy (synthetics_check_id opts)
                then Inr (PatchSynthetics
                            (case synthetics_check_id opts of Some checkId \<Rightarrow> checkId | None \<Rightarrow> [])
                            (message m))
                else Inr (PutMonitor monitorId m))
      else Inr (PutMonitor monitorId m))"

text \<open>
  The handler of \<^verbatim>\<open>updateDatadogMonitor\<close> is
  \<^verbatim>\<open>console.error('Error updating Datadog monitor:', error, error.response.data)\<close>, which throws
  where what it has caught has no \<^verbatim>\<open>response\<close>: a rejection without a response, or the
  \<open>TypeError\<close> of the line above.
\<close>

definition updateFailed :: "http_error \<Rightarrow> exn + unit" where
  "updateFailed failure = (case failure of NoResponse \<Rightarrow> Inl TypeError | ErrorResponse _ \<Rightarrow> Inr ())"

text \<open>
  \<^verbatim>\<open>updateDatadogMonitor(monitorId, patches)\<close> reads the monitor again, applies the patches to the
  message it has read, pushes the record of the old and the new message, and then, unless
  \<^verbatim>\<open>DRY_RUN\<close> is set, writes the monitor back.
\<close>

definition updateDatadogMonitor ::
  "process_env \<Rightarrow> remote \<Rightarrow> string \<Rightarrow> (string \<times> string) list \<Rightarrow> state \<Rightarrow> (exn + unit) \<times> state" where
  "updateDatadogMonitor env rem monitorId patches st =
     (let st1 = request (GetMonitor monitorId) st
      in case monitorFetched rem (calls st1) of
           Inl failure \<Rightarrow> (updateFailed failure, st1)
         | Inr None \<Rightarrow> (Inr (), st1)
         | Inr (Some fetched) \<Rightarrow>
             let oldMsg = message fetched;
                 m = fetched\<lparr>message := applyPatches (message fetched) patches\<rparr>;
                 st2 = push \<lparr>monitor = m, old = None, new = None, oldMessage = Some oldMsg,
                              newMessage = Some (message m), error = None\<rparr> st1
             in if truthy (DRY_RUN env) then (Inr (), st2)
                else
                  (case writeRequest monitorId m of
                     Inl e \<Rightarrow> (Inl TypeError, st2)
                   | Inr write \<Rightarrow>
                       let st3 = request write st2
                       in case monitorWritten rem (calls st3) of
                            None \<Rightarrow> (Inr (), st3)
                          | Some failure \<Rightarrow> (updateFailed failure, st3)))"

section \<open>Processing one monitor\<close>

text \<open>The objects that \<^verbatim>\<open>processMonitor\<close> pushes to \<^verbatim>\<open>results\<close>.\<close>

definition skipped :: "datadog_monitor \<Rightarrow> outcome" where
  "skipped m = \<lparr>monitor = m, old = None, new = None, oldMessage = None, newMessage = None,
     error = Some (''Skipping monitor ID: '' @ monitor_id m
                     @ '' as it already contains @webhook-rootly.'')\<rparr>"

definition noNotifications :: "datadog_monitor \<Rightarrow> outcome" where
  "noNotifications m = \<lparr>monitor = m, old = None, new = None, oldMessage = None, newMessage = None,
     error = Some (''No PagerDuty notifications found in monitor ID: '' @ monitor_id m)\<rparr>"

definition pagerdutyNotFound :: "datadog_monitor \<Rightarrow> string \<Rightarrow> string \<Rightarrow> outcome" where
  "pagerdutyNotFound m notification serviceName =
     \<lparr>monitor = m, old = Some notification, new = None, oldMessage = None, newMessage = None,
      error = Some (''PagerDuty ID not found for service name: '' @ serviceName)\<rparr>"

definition rootlyNotFound :: "datadog_monitor \<Rightarrow> string \<Rightarrow> string \<Rightarrow> outcome" where
  "rootlyNotFound m notification pagerdutyId =
     \<lparr>monitor = m, old = Some notification, new = None, oldMessage = None, newMessage = None,
      error = Some (''Rootly ID not found for PagerDuty ID: '' @ pagerdutyId)\<rparr>"

definition appended :: "datadog_monitor \<Rightarrow> string \<Rightarrow> string \<Rightarrow> outcome" where
  "appended m notification newNotification =
     \<lparr>monitor = m, old = Some notification, new = Some newNotification, oldMessage = None,
      newMessage = None, error = None\<rparr>"

text \<open>
  \<^verbatim>\<open>const patches = (await Promise.all(notifications.map(async function(notification) {
    const serviceName = notification.split('@pagerduty-')[1];
    const pagerdutyId = getPagerdutyServiceId(serviceName);
    if (pagerdutyId) {
      const rootlyId = await fetchRootlyServiceId(pagerdutyId);
      if (rootlyId) {
        await createDatadogWebhook(serviceName, rootlyId);
        const newNotification = `@webhook-rootly-${normalizedServiceName(serviceName)}`;
        results.push({monitor: monitor, old: notification, new: newNotification, error: null});
        return [notification, newNotification];
      } else { results.push({..., error: `Rootly ID not found for PagerDuty ID: ${pagerdutyId}`}); ... }
    } else { results.push({..., error: `PagerDuty ID not found for service name: ${serviceName}`}); ... }
  }))).filter((patch) => (!!patch))\<close>

  The callbacks run interleaved, each without interruption up to its next \<^verbatim>\<open>await\<close>:
  \<^enum> during \<^verbatim>\<open>map\<close>, every callback in turn runs up to \<^verbatim>\<open>await fetchRootlyServiceId(...)\<close>, or to
    its end where the PagerDuty id is missing (\<open>callbackStart\<close>);
  \<^enum> \<^verbatim>\<open>fetchRootlyServiceId\<close> awaits nothing, so the waiting callbacks resume in turn before any
    reply can arrive from the network: each pushes the Rootly error, or calls
    \<^verbatim>\<open>createDatadogWebhook\<close>, which sends its request and waits (\<open>callbackAfterLookup\<close>);
  \<^enum> the callbacks resume as \<^verbatim>\<open>createDatadogWebhook\<close> settles (\<open>callbackAfterWebhook\<close>). In a dry
    run that is in turn. Otherwise it is the order in which the replies arrive: by the time
    they take, and in the order of the requests among replies that take the same time.

  The value of \<^verbatim>\<open>Promise.all\<close> keeps the order of the notifications, whatever the order in which
  the callbacks end. It rejects with the first rejection, and the \<^verbatim>\<open>catch\<close> of \<^verbatim>\<open>processMonitor\<close>
  then logs and ends the processing of the monitor. A callback that is still waiting at that
  time is not stopped: it resumes when its reply arrives and pushes its record. Here it does
  so before anything else is processed; in a run, records of the monitors processed next can
  come before it.

  The index \<open>1\<close> of \<open>serviceNameOf\<close> is in range for every notification that \<open>matchAll\<close>
  returns (lemma \<open>split_notification\<close>).
\<close>

definition serviceNameOf :: "string \<Rightarrow> string" where
  "serviceNameOf notification = split ''@pagerduty-'' notification ! 1"

datatype pending =
    Settled
  | AwaitingRootly string string string "string option"
  | AwaitingWebhook string string nat "exn + unit"

fun settlesAt :: "pending \<Rightarrow> nat" where
  "settlesAt (AwaitingWebhook notification serviceName arrival r) = arrival"
| "settlesAt p = 0"

definition callbackStart :: "datadog_monitor \<Rightarrow> string \<Rightarrow> state \<Rightarrow> pending \<times> state" where
  "callbackStart m notification st =
     (let serviceName = serviceNameOf notification;
          pagerdutyId = getPagerdutyServiceId st serviceName
      in if truthy pagerdutyId
         then (case pagerdutyId of
                 Some pid \<Rightarrow>
                   (AwaitingRootly notification serviceName pid (fetchRootlyServiceId st pid), st)
               | None \<Rightarrow> (Settled, st))
         else (Settled, push (pagerdutyNotFound m notification serviceName) st))"

definition callbackAfterLookup ::
  "process_env \<Rightarrow> remote \<Rightarrow> datadog_monitor \<Rightarrow> pending \<Rightarrow> state \<Rightarrow> pending \<times> state" where
  "callbackAfterLookup env rem m p st =
     (case p of
        AwaitingRootly notification serviceName pagerdutyId rootlyId \<Rightarrow>
          (if truthy rootlyId
           then (case rootlyId of
                   Some rid \<Rightarrow>
                     (case createDatadogWebhook env rem serviceName rid st of
                        ((arrival, r), st') \<Rightarrow>
                          (AwaitingWebhook notification serviceName arrival r, st'))
                 | None \<Rightarrow> (Settled, st))
           else (Settled, push (rootlyNotFound m notification pagerdutyId) st))
      | _ \<Rightarrow> (p, st))"

definition callbackAfterWebhook ::
  "datadog_monitor \<Rightarrow> pending \<Rightarrow> state \<Rightarrow> (exn + (string \<times> string) option) \<times> state" where
  "callbackAfterWebhook m p st =
     (case p of
        AwaitingWebhook notification serviceName arrival r \<Rightarrow>
          (case r of
             Inl e \<Rightarrow> (Inl e, st)
           | Inr _ \<Rightarrow>
               let newNotification = ''@webhook-rootly-'' @ normalizedServiceName serviceName
               in (Inr (Some (notification, newNotification)),
                   push (appended m notification newNotification) st))
      | _ \<Rightarrow> (Inr None, st))"

text \<open>
  One round over the callbacks, in turn (\<open>resumeAll\<close>); and \<^verbatim>\<open>Promise.all\<close> over callbacks that
  wait (\<open>promiseAll\<close>): they resume in the order in which what they wait for settles, each
  keeping its place in the list, and the value is the list of their values by place, or the
  first rejection.
\<close>

fun resumeAll :: "('a \<Rightarrow> state \<Rightarrow> 'b \<times> state) \<Rightarrow> 'a list \<Rightarrow> state \<Rightarrow> 'b list \<times> state" where
  "resumeAll f [] st = ([], st)"
| "resumeAll f (x # xs) st =
     (case f x st of
        (y, st') \<Rightarrow> (case resumeAll f xs st' of (ys, st'') \<Rightarrow> (y # ys, st'')))"

definition firstRejection :: "(exn + 'b) list \<Rightarrow> exn option" where
  "firstRejection rs =
     (case List.map_filter (\<lambda>r. case r of Inl e \<Rightarrow> Some e | Inr y \<Rightarrow> None) rs of
        [] \<Rightarrow> None
      | e # es \<Rightarrow> Some e)"

definition promiseAll ::
  "('a \<Rightarrow> state \<Rightarrow> (exn + 'b) \<times> state) \<Rightarrow> ('a \<Rightarrow> nat) \<Rightarrow> 'a list \<Rightarrow> state
     \<Rightarrow> (exn + 'b list) \<times> state" where
  "promiseAll f arrival xs st =
     (case resumeAll (\<lambda>(i, x) s. case f x s of (r, s') \<Rightarrow> ((i, r), s'))
             (sort_key (\<lambda>(i, x). arrival x) (enumerate 0 xs)) st of
        (ended, st') \<Rightarrow>
          (case firstRejection (map snd ended) of
             Some e \<Rightarrow> (Inl e, st')
           | None \<Rightarrow>
               (Inr (List.map_filter (\<lambda>(i, r). case r of Inl e \<Rightarrow> None | Inr y \<Rightarrow> Some y)
                       (sort_key fst ended)),
                st')))"

definition collectPatches ::
  "process_env \<Rightarrow> remote \<Rightarrow> datadog_monitor \<Rightarrow> string list \<Rightarrow> state
     \<Rightarrow> (exn + (string \<times> string) list) \<times> state" where
  "collectPatches env rem m notifications st =
     (case resumeAll (callbackStart m) notifications st of
        (started, st1) \<Rightarrow>
          (case resumeAll (callbackAfterLookup env rem m) started st1 of
             (looked, st2) \<Rightarrow>
               (case promiseAll (callbackAfterWebhook m) settlesAt looked st2 of
                  (Inl e, st3) \<Rightarrow> (Inl e, st3)
                | (Inr settled, st3) \<Rightarrow> (Inr (List.map_filter (\<lambda>patch. patch) settled), st3))))"

text \<open>
  \<^verbatim>\<open>async function processMonitor(monitor) {
    try {
      if (monitor.message.match(/@webhook-rootly-[^\s]+/)) {
        results.push({monitor: monitor, old: null, new: null, error: `Skipping monitor ID: ...`});
        return;
      }
      const notifications = monitor.message.match(/@pagerduty-([^\s]+)/g);
      if (notifications) {
        const patches = ...
        if (patches.length) { await updateDatadogMonitor(monitor.id, patches); }
      } else {
        results.push({monitor: monitor, old: null, new: null, error: `No PagerDuty notifications ...`})
      }
    } catch (error) { console.error(`Error processing monitor ID: ${monitor.id}`, error); }
  }\<close>
  Every exception ends in the \<^verbatim>\<open>catch\<close>, so \<open>processMonitor\<close> returns a state.
\<close>

definition processMonitor :: "process_env \<Rightarrow> remote \<Rightarrow> datadog_monitor \<Rightarrow> state \<Rightarrow> state" where
  "processMonitor env rem m st =
     (if hasMatch ''@webhook-rootly-'' (message m) then push (skipped m) st
      else
        let notifications = matchAll ''@pagerduty-'' (message m)
        in if notifications \<noteq> []
           then (case collectPatches env rem m notifications st of
                   (Inl e, st') \<Rightarrow> st'
                 | (Inr patches, st') \<Rightarrow>
                     if length patches \<noteq> 0
                     then snd (updateDatadogMonitor env rem (monitor_id m) patches st')
                     else st')
           else push (noNotifications m) st)"

section \<open>The run\<close>

text \<open>
  \<^verbatim>\<open>async function main() {
    try {
      await fetchAndCacheRootlyServices();
      await fetchAndCachePagerdutyServices();
      const monitors = await fetchDatadogMonitors();
      for (const monitor of monitors) { await processMonitor(monitor); }
      fs.writeFileSync(`run-${Date.now()}.csv`, resultsCSV());
    } catch (err) { console.error('An error occurred:', err); }
  }\<close>
  The file written at the end is a rendering of \<open>results\<close> and is not modelled.
\<close>

definition main :: "process_env \<Rightarrow> remote \<Rightarrow> state \<Rightarrow> state option" where
  "main env rem st =
     (case fetchAndCacheRootlyServices rem st of
        None \<Rightarrow> None
      | Some st1 \<Rightarrow>
          (case fetchAndCachePagerdutyServices rem st1 of
             None \<Rightarrow> None
           | Some st2 \<Rightarrow>
               (case fetchDatadogMonitors rem st2 of
                  None \<Rightarrow> None
                | Some (fetched, st3) \<Rightarrow>
                    Some (foldl (\<lambda>s m. processMonitor env rem m s) st3 fetched))))"

text \<open>
  The script as a whole: the loop over \<^verbatim>\<open>requiredEnvVars\<close> stands at the top of the module and
  runs before \<^verbatim>\<open>main()\<close> is called. \<open>Exited code sent\<close> is the process ended by
  \<^verbatim>\<open>process.exit(code)\<close>, with the requests it had sent.
\<close>

datatype run = Exited nat "call list" | Completed state

definition program :: "process_env \<Rightarrow> remote \<Rightarrow> run option" where
  "program env rem =
     (case missingEnvVar requiredEnvVars env of
        Some envVar \<Rightarrow> Some (Exited 1 (calls initial))
      | None \<Rightarrow> map_option Completed (main env rem initial))"

section \<open>Notions for stating what a monitor's processing does\<close>

text \<open>
  What each round over the callbacks pushes and sends, read off the notification (first
  round) or off the state in which a callback waits (later rounds): \<open>startMiss\<close> is the record
  pushed where no PagerDuty id is found, \<open>rootlyMiss\<close> and \<open>lookupMiss\<close> the record pushed where
  no Rootly id is found, \<open>resolve\<close> and \<open>lookupHit\<close> the notification with its service name and
  Rootly id where both are found, \<open>webhookRequest\<close> the request sent for it, \<open>awaited\<close> the
  notification whose webhook is being created, \<open>patchOf\<close> and \<open>appendedOf\<close> the patch and the
  record it ends with, \<open>rejected\<close> says that the webhook creation threw, and \<open>accepted\<close> is
  the notification whose webhook creation did not.
\<close>

definition startMiss :: "datadog_monitor \<Rightarrow> state \<Rightarrow> string \<Rightarrow> outcome list" where
  "startMiss m st notification =
     (if truthy (getPagerdutyServiceId st (serviceNameOf notification)) then []
      else [pagerdutyNotFound m notification (serviceNameOf notification)])"

definition rootlyMiss :: "datadog_monitor \<Rightarrow> state \<Rightarrow> string \<Rightarrow> outcome list" where
  "rootlyMiss m st notification =
     (case getPagerdutyServiceId st (serviceNameOf notification) of
        None \<Rightarrow> []
      | Some pid \<Rightarrow>
          if pid = [] then []
          else if truthy (fetchRootlyServiceId st pid) then []
          else [rootlyNotFound m notification pid])"

definition resolve :: "state \<Rightarrow> string \<Rightarrow> (string \<times> string \<times> string) list" where
  "resolve st notification =
     (case getPagerdutyServiceId st (serviceNameOf notification) of
        None \<Rightarrow> []
      | Some pid \<Rightarrow>
          if pid = [] then []
          else (case fetchRootlyServiceId st pid of
                  None \<Rightarrow> []
                | Some rid \<Rightarrow>
                    if rid = [] then [] else [(notification, serviceNameOf notification, rid)]))"

fun lookupMiss :: "datadog_monitor \<Rightarrow> pending \<Rightarrow> outcome list" where
  "lookupMiss m (AwaitingRootly notification serviceName pagerdutyId rootlyId) =
     (if truthy rootlyId then [] else [rootlyNotFound m notification pagerdutyId])"
| "lookupMiss m p = []"

fun lookupHit :: "pending \<Rightarrow> (string \<times> string \<times> string) list" where
  "lookupHit (AwaitingRootly notification serviceName pagerdutyId rootlyId) =
     (case rootlyId of
        Some rid \<Rightarrow> if rid \<noteq> [] then [(notification, serviceName, rid)] else []
      | None \<Rightarrow> [])"
| "lookupHit p = []"

fun awaited :: "pending \<Rightarrow> (string \<times> string) list" where
  "awaited (AwaitingWebhook notification serviceName arrival r) = [(notification, serviceName)]"
| "awaited p = []"

fun rejected :: "pending \<Rightarrow> bool" where
  "rejected (AwaitingWebhook notification serviceName arrival (Inl e)) = True"
| "rejected p = False"

fun accepted :: "pending \<Rightarrow> (string \<times> string) list" where
  "accepted (AwaitingWebhook notification serviceName arrival (Inr u)) = [(notification, serviceName)]"
| "accepted p = []"

definition webhookRequest :: "process_env \<Rightarrow> string \<times> string \<times> string \<Rightarrow> call" where
  "webhookRequest env h =
     (case h of (notification, serviceName, rid) \<Rightarrow>
        PostWebhook (''rootly-'' @ normalizedServiceName serviceName) rid
          (ROOTLY_ALERT_SOURCE_SECRET env))"

definition patchOf :: "string \<times> string \<Rightarrow> string \<times> string" where
  "patchOf a = (case a of (notification, serviceName) \<Rightarrow>
     (notification, ''@webhook-rootly-'' @ normalizedServiceName serviceName))"

definition appendedOf :: "datadog_monitor \<Rightarrow> string \<times> string \<Rightarrow> outcome" where
  "appendedOf m a = (case patchOf a of (notification, newNotification) \<Rightarrow>
     appended m notification newNotification)"

text \<open>
  For a list of notifications: \<open>resolved\<close> are those, in turn, that have a PagerDuty service
  and a linked Rootly service, each with its service name and its Rootly id; \<open>postsFor\<close> are
  the webhook creations sent for them, none in a dry run; \<open>patchesFor\<close> are their patches.
\<close>

definition resolved :: "state \<Rightarrow> string list \<Rightarrow> (string \<times> string \<times> string) list" where
  "resolved st ns = concat (map (resolve st) ns)"

definition postsFor :: "process_env \<Rightarrow> state \<Rightarrow> string list \<Rightarrow> call list" where
  "postsFor env st ns =
     (if truthy (DRY_RUN env) then []
      else map (\<lambda>(notification, serviceName, rid).
                  PostWebhook (''rootly-'' @ normalizedServiceName serviceName) rid
                    (ROOTLY_ALERT_SOURCE_SECRET env))
             (resolved st ns))"

definition patchesFor :: "state \<Rightarrow> string list \<Rightarrow> (string \<times> string) list" where
  "patchesFor st ns =
     map (\<lambda>(notification, serviceName, rid).
            (notification, ''@webhook-rootly-'' @ normalizedServiceName serviceName))
       (resolved st ns)"

definition sameCaches :: "state \<Rightarrow> state \<Rightarrow> bool" where
  "sameCaches a b = (pagerdutyServicesCache a = pagerdutyServicesCache b
     \<and> rootlyServicesCache a = rootlyServicesCache b)"

text \<open>
  The remote side answers every webhook creation: with success, or with an error response
  whose body has an \<^verbatim>\<open>errors\<close> array.
\<close>

definition answered :: "remote \<Rightarrow> bool" where
  "answered rem =
     (\<forall>sent. webhookCreated rem sent \<noteq> Some NoResponse
           \<and> webhookCreated rem sent \<noteq> Some (ErrorResponse None))"

text \<open>The requests that a run has sent, however it ended.\<close>

definition sent :: "run \<Rightarrow> call list" where
  "sent r = (case r of Exited code cs \<Rightarrow> cs | Completed st \<Rightarrow> calls st)"

text \<open>
  No occurrence of \<open>pattern\<close> begins within the part \<open>X\<close> of the text \<open>X @ Y\<close>.
\<close>

definition clear :: "string \<Rightarrow> string \<Rightarrow> string \<Rightarrow> bool" where
  "clear pattern X Y = (\<forall>p<length X. \<not> occursAt pattern (X @ Y) p)"

section \<open>Concrete inputs\<close>

text \<open>
  A small installation, for running the definitions: four PagerDuty services, each linked to
  a Rootly service; one monitor \<open>monitorWith msg\<close>; a remote side \<open>world m webhook\<close> that lists
  the services on the first page (the second page of PagerDuty fails), answers every webhook
  creation with \<open>webhook\<close> and at once, serves the monitor \<open>m\<close> and accepts every write. \<open>cached\<close> is the
  state once both directories are loaded.
\<close>

definition directory_pagerduty :: "pagerduty_service list" where
  "directory_pagerduty =
     [\<lparr>pd_id = ''P1'', pd_name = ''Checkout''\<rparr>,
      \<lparr>pd_id = ''P2'', pd_name = ''db''\<rparr>,
      \<lparr>pd_id = ''P3'', pd_name = ''db-replica''\<rparr>,
      \<lparr>pd_id = ''P4'', pd_name = ''a!''\<rparr>]"

definition directory_rootly :: "rootly_service list" where
  "directory_rootly =
     [\<lparr>rootly_id = ''R1'', pagerduty_id = Some ''P1''\<rparr>,
      \<lparr>rootly_id = ''R2'', pagerduty_id = Some ''P2''\<rparr>,
      \<lparr>rootly_id = ''R3'', pagerduty_id = Some ''P3''\<rparr>,
      \<lparr>rootly_id = ''R4'', pagerduty_id = Some ''P4''\<rparr>]"

definition monitorWith :: "string \<Rightarrow> datadog_monitor" where
  "monitorWith msg = \<lparr>monitor_id = ''7'', monitor_name = ''latency'', message = msg,
     monitor_type = ''metric alert'', options = Some \<lparr>synthetics_check_id = None\<rparr>\<rparr>"

definition world :: "datadog_monitor \<Rightarrow> http_error option \<Rightarrow> remote" where
  "world m webhook =
     \<lparr>pagerdutyServices = (\<lambda>offset. if offset = 0 then Inr directory_pagerduty else Inl NoResponse),
      rootlyServices = (\<lambda>page. if page = 1 then Inr directory_rootly else Inr []),
      monitors = (\<lambda>page. if page = 0 then Inr [m] else Inr []),
      webhookCreated = (\<lambda>sent. webhook),
      webhookDelay = (\<lambda>sent. 0),
      monitorFetched = (\<lambda>sent. Inr (Some m)),
      monitorWritten = (\<lambda>sent. None)\<rparr>"

definition cached :: state where
  "cached = initial\<lparr>pagerdutyServicesCache := directory_pagerduty,
                     rootlyServicesCache := directory_rootly\<rparr>"

definition env_normal :: process_env where
  "env_normal = (\<lambda>envVar. if envVar \<in> set requiredEnvVars then Some ''set'' else None)"

definition env_dry :: process_env where
  "env_dry = (\<lambda>envVar. if envVar = ''DRY_RUN'' then Some ''true'' else env_normal envVar)"

definition env_without_secret :: process_env where
  "env_without_secret =
     (\<lambda>envVar. if envVar = ''ROOTLY_ALERT_SOURCE_SECRET'' then None else env_normal envVar)"

section \<open>The name normalizer\<close>

subsection \<open>Characters\<close>

lemma underscore_code: "(c = CHR ''_'') = ((of_char c :: nat) = 95)"
proof -
  have "(of_char (CHR ''_'') :: nat) = 95" by simp
  then show ?thesis by (metis of_char_eq_iff)
qed

lemma dash_code: "(c = CHR ''-'') = ((of_char c :: nat) = 45)"
proof -
  have "(of_char (CHR ''-'') :: nat) = 45" by simp
  then show ?thesis by (metis of_char_eq_iff)
qed

lemma isNameChar_code:
  "isNameChar c = (let n = (of_char c :: nat)
     in (48 \<le> n \<and> n \<le> 57) \<or> (65 \<le> n \<and> n \<le> 90) \<or> n = 95 \<or> (97 \<le> n \<and> n \<le> 122) \<or> n = 45)"
  unfolding isNameChar_def isWordChar_def underscore_code dash_code Let_def by blast

lemma isLowerNameChar_code:
  "isLowerNameChar c = (let n = (of_char c :: nat)
     in (48 \<le> n \<and> n \<le> 57) \<or> n = 95 \<or> (97 \<le> n \<and> n \<le> 122) \<or> n = 45)"
  unfolding isLowerNameChar_def underscore_code dash_code Let_def by blast

lemma isNameChar_underscore: "isNameChar (CHR ''_'')"
  by (simp add: isNameChar_def)

lemma toLowerChar_upper:
  assumes "65 \<le> (of_char c :: nat)" "(of_char c :: nat) \<le> 90"
  shows "(of_char (toLowerChar c) :: nat) = of_char c + 32"
proof -
  have "toLowerChar c = char_of ((of_char c :: nat) + 32)"
    using assms by (simp add: toLowerChar_def Let_def)
  moreover have "((of_char c :: nat) + 32) mod 256 = of_char c + 32"
    using assms by simp
  ultimately show ?thesis by simp
qed

lemma toLowerChar_other:
  assumes "\<not> (65 \<le> (of_char c :: nat) \<and> (of_char c :: nat) \<le> 90)" "(of_char c :: nat) < 192"
  shows "toLowerChar c = c"
  using assms by (auto simp: toLowerChar_def Let_def)

lemma toLowerChar_lower: "isNameChar c \<Longrightarrow> isLowerNameChar (toLowerChar c)"
proof (cases "65 \<le> (of_char c :: nat) \<and> (of_char c :: nat) \<le> 90")
  case True
  then have "(of_char (toLowerChar c) :: nat) = of_char c + 32"
    by (simp add: toLowerChar_upper)
  with True show ?thesis
    by (simp add: isLowerNameChar_code Let_def)
next
  case False
  assume n: "isNameChar c"
  with False have "(of_char c :: nat) < 192"
    by (auto simp: isNameChar_code Let_def)
  with False have "toLowerChar c = c"
    by (simp add: toLowerChar_other)
  with n False show ?thesis
    by (auto simp: isNameChar_code isLowerNameChar_code Let_def)
qed

lemma lower_is_name: "isLowerNameChar c \<Longrightarrow> isNameChar c"
  by (auto simp: isNameChar_code isLowerNameChar_code Let_def)

lemma toLowerChar_fixes_lower: "isLowerNameChar c \<Longrightarrow> toLowerChar c = c"
  by (rule toLowerChar_other) (auto simp: isLowerNameChar_code Let_def)

lemma lower_not_dollar: "isLowerNameChar c \<Longrightarrow> c \<noteq> CHR ''$''"
  by (auto simp: isLowerNameChar_code Let_def)

subsection \<open>The three steps\<close>

lemma replaceRuns_all_name: "list_all isNameChar (replaceRuns s)"
  by (induction s rule: replaceRuns.induct) (simp_all add: isNameChar_underscore)

lemma replaceRuns_fixes_names: "list_all isNameChar s \<Longrightarrow> replaceRuns s = s"
  by (induction s) simp_all

lemma toLowerCase_all_lower: "list_all isNameChar s \<Longrightarrow> list_all isLowerNameChar (toLowerCase s)"
  by (induction s) (simp_all add: toLowerCase_def toLowerChar_lower)

lemma toLowerCase_fixes_lower: "list_all isLowerNameChar s \<Longrightarrow> toLowerCase s = s"
  by (induction s) (simp_all add: toLowerCase_def toLowerChar_fixes_lower)

lemma all_lower_all_name: "list_all isLowerNameChar s \<Longrightarrow> list_all isNameChar s"
  by (induction s) (simp_all add: lower_is_name)

lemma stripLeading_all: "list_all P s \<Longrightarrow> list_all P (stripLeading s)"
  by (cases s) (simp_all add: stripLeading_def)

lemma normalized_all_lower: "list_all isLowerNameChar (normalizedServiceName s)"
  unfolding normalizedServiceName_def
  by (intro stripLeading_all toLowerCase_all_lower replaceRuns_all_name)

lemma stripLeading_fixpoint: "(stripLeading s = s) = (\<not> startsWithSeparator s)"
  by (cases s) (auto simp: stripLeading_def startsWithSeparator_def)

lemma normalize_of_normalized:
  "list_all isLowerNameChar s \<Longrightarrow> normalizedServiceName s = stripLeading s"
  by (simp add: normalizedServiceName_def replaceRuns_fixes_names all_lower_all_name
      toLowerCase_fixes_lower)

text \<open>
  On the characters modelled, lowercasing keeps a character inside or outside the class, so
  the order of the first two steps makes no difference here. (In JavaScript at large it
  does: the Kelvin sign U+212A is outside the class and lowercases to \<^verbatim>\<open>k\<close>. The amended claim
  C2 below therefore keeps the order of the code.)
\<close>

lemma isNameChar_toLowerChar: "isNameChar (toLowerChar c) = isNameChar c"
proof (cases "65 \<le> (of_char c :: nat) \<and> (of_char c :: nat) \<le> 90")
  case True
  then have "(of_char (toLowerChar c) :: nat) = of_char c + 32" by (simp add: toLowerChar_upper)
  with True show ?thesis by (simp add: isNameChar_code Let_def)
next
  case False
  show ?thesis
  proof (cases "192 \<le> (of_char c :: nat) \<and> (of_char c :: nat) \<le> 222 \<and> (of_char c :: nat) \<noteq> 215")
    case True
    then have "toLowerChar c = char_of ((of_char c :: nat) + 32)"
      by (simp add: toLowerChar_def Let_def)
    moreover have "((of_char c :: nat) + 32) mod 256 = of_char c + 32" using True by simp
    ultimately have "(of_char (toLowerChar c) :: nat) = of_char c + 32" by simp
    with True show ?thesis by (simp add: isNameChar_code Let_def)
  next
    case f: False
    with False have "toLowerChar c = c" by (auto simp: toLowerChar_def Let_def)
    then show ?thesis by simp
  qed
qed

lemma toLowerChar_underscore: "toLowerChar (CHR ''_'') = CHR ''_''"
  by (simp add: toLowerChar_def)

lemma replaceRuns_toLowerCase: "replaceRuns (toLowerCase s) = toLowerCase (replaceRuns s)"
proof (induction s rule: replaceRuns.induct)
  case 1
  then show ?case by (simp add: toLowerCase_def)
next
  case (2 c cs)
  have d: "dropWhile (\<lambda>d. \<not> isNameChar d) (map toLowerChar cs)
      = map toLowerChar (dropWhile (\<lambda>d. \<not> isNameChar d) cs)"
    by (simp add: dropWhile_map comp_def isNameChar_toLowerChar)
  show ?case
    using 2 by (simp add: toLowerCase_def isNameChar_toLowerChar d toLowerChar_underscore)
qed

subsection \<open>Runs\<close>

lemma concat_runs: "concat (runs s) = s"
  by (induction s rule: runs.induct) simp_all

lemma list_all_takeWhile: "list_all Q (takeWhile Q xs)"
  by (induction xs) simp_all

lemma uniform_run: "uniform (c # takeWhile (\<lambda>d. isNameChar d = isNameChar c) cs)"
proof (cases "isNameChar c")
  case True
  then have "(\<lambda>d. isNameChar d = isNameChar c) = isNameChar" by auto
  with True show ?thesis by (simp add: uniform_def list_all_takeWhile)
next
  case False
  then have "(\<lambda>d. isNameChar d = isNameChar c) = (\<lambda>d. \<not> isNameChar d)" by auto
  with False show ?thesis by (simp add: uniform_def list_all_takeWhile)
qed

lemma uniform_runs: "list_all uniform (runs s)"
  by (induction s rule: runs.induct) (simp_all add: uniform_run)

lemma hd_runs: "runs s = r # rs \<Longrightarrow> hd r = hd s"
  by (cases s) auto

lemma alternating_runs: "alternating (runs s)"
proof (induction s rule: runs.induct)
  case 1
  then show ?case by simp
next
  case (2 c cs)
  let ?same = "\<lambda>d. isNameChar d = isNameChar c"
  show ?case
  proof (cases "runs (dropWhile ?same cs)")
    case Nil
    then show ?thesis by simp
  next
    case (Cons r rs)
    have ne: "dropWhile ?same cs \<noteq> []"
    proof
      assume "dropWhile ?same cs = []"
      with Cons show False by simp
    qed
    have "hd r = hd (dropWhile ?same cs)" using Cons by (rule hd_runs)
    moreover have "\<not> ?same (hd (dropWhile ?same cs))" using ne by (rule hd_dropWhile)
    ultimately have "isNameChar c \<noteq> isNameChar (hd r)" by auto
    with 2 Cons show ?thesis by simp
  qed
qed

lemma replaceRuns_takeWhile:
  "replaceRuns s = takeWhile isNameChar s @ replaceRuns (dropWhile isNameChar s)"
  by (induction s) simp_all

lemma replaceRuns_runs: "replaceRuns s = concat (map collapseRun (runs s))"
proof (induction s rule: runs.induct)
  case 1
  then show ?case by simp
next
  case (2 c cs)
  show ?case
  proof (cases "isNameChar c")
    case True
    then have "replaceRuns (c # cs) = c # takeWhile isNameChar cs @ replaceRuns (dropWhile isNameChar cs)"
      using replaceRuns_takeWhile [of cs] by simp
    moreover have "list_all isNameChar (c # takeWhile isNameChar cs)"
      using True by (simp add: list_all_takeWhile)
    ultimately show ?thesis
      using 2 True by (simp add: collapseRun_def)
  next
    case False
    then show ?thesis
      using 2 by (simp add: collapseRun_def)
  qed
qed

subsection \<open>What the normalizer returns\<close>

text \<open>
  Claim C2, as the specification words it, does not hold: the code does not replace every
  single character outside \<^verbatim>\<open>[A-Za-z0-9_-]\<close> with an underscore. On the name that the
  documentation gives as its example, \<^verbatim>\<open>[Production] On-Call\<close>, the bracket and the space that
  follows it become one underscore, not two.
\<close>

theorem normalizedServiceName_not_per_character:
  "normalizedServiceName ''[Production] On-Call'' \<noteq> normalize_spec ''[Production] On-Call''"
proof -
  have "normalizedServiceName ''[Production] On-Call'' = ''production_on-call''" by code_simp
  moreover have "normalize_spec ''[Production] On-Call'' = ''production__on-call''" by code_simp
  ultimately show ?thesis by simp
qed

text \<open>
  Claim C2, amended: for every input string, \<open>normalizedServiceName\<close> returns the string got by
  replacing every maximal run of characters outside \<^verbatim>\<open>[A-Za-z0-9_-]\<close> with one underscore,
  lowercasing the result, and stripping one leading underscore or dash if there is one. The
  runs are the maximal blocks of the input: together they are the input, each is non-empty and
  of one kind, and neighbours are of different kinds. The result consists of characters of
  \<^verbatim>\<open>[a-z0-9_-]\<close> only. The function is total: it is a function of its argument alone and has a
  value for every string.
\<close>

theorem normalizedServiceName_collapses_runs:
  "normalizedServiceName s = stripLeading (toLowerCase (concat (map collapseRun (runs s))))
     \<and> concat (runs s) = s \<and> list_all uniform (runs s) \<and> alternating (runs s)
     \<and> list_all isLowerNameChar (normalizedServiceName s)"
proof -
  have "normalizedServiceName s = stripLeading (toLowerCase (concat (map collapseRun (runs s))))"
    by (simp add: normalizedServiceName_def replaceRuns_runs)
  then show ?thesis
    using concat_runs [of s] uniform_runs [of s] alternating_runs [of s]
      normalized_all_lower [of s]
    by simp
qed

text \<open>The amended claim C2 on the documentation's example.\<close>

theorem normalizedServiceName_collapses_runs_witness:
  "runs ''[Production] On-Call'' = [''['', ''Production'', ''] '', ''On-Call'']
     \<and> normalizedServiceName ''[Production] On-Call'' = ''production_on-call''"
proof -
  have r: "runs ''[Production] On-Call'' = [''['', ''Production'', ''] '', ''On-Call'']"
    by code_simp
  have e: "stripLeading (toLowerCase (concat (map collapseRun
             [''['', ''Production'', ''] '', ''On-Call'']))) = ''production_on-call''"
    by code_simp
  show ?thesis
    using normalizedServiceName_collapses_runs [of "''[Production] On-Call''"] r e by simp
qed

subsection \<open>Normalizing twice\<close>

text \<open>
  Claim C3 does not hold: one leading underscore or dash is stripped at each application, so
  a name with two of them loses one more when it is normalized again.
\<close>

theorem normalizedServiceName_not_idempotent:
  "normalizedServiceName (normalizedServiceName ''__init__'') \<noteq> normalizedServiceName ''__init__''"
proof -
  have "normalizedServiceName ''__init__'' = ''_init__''" by code_simp
  moreover have "normalizedServiceName ''_init__'' = ''init__''" by code_simp
  ultimately show ?thesis by simp
qed

text \<open>
  Claim C3, amended: normalizing a second time changes nothing exactly for the inputs whose
  normalized name does not begin with an underscore or a dash; for every other input, the
  second application returns a different string.
\<close>

theorem normalizedServiceName_twice:
  "(normalizedServiceName (normalizedServiceName x) = normalizedServiceName x)
     = (\<not> startsWithSeparator (normalizedServiceName x))"
  by (simp add: normalize_of_normalized normalized_all_lower stripLeading_fixpoint)

text \<open>The amended claim C3 on a name of either kind.\<close>

theorem normalizedServiceName_twice_witness:
  "normalizedServiceName (normalizedServiceName ''[Production] On-Call'')
     = normalizedServiceName ''[Production] On-Call''
   \<and> normalizedServiceName (normalizedServiceName ''__init__'') \<noteq> normalizedServiceName ''__init__''"
proof -
  have a: "\<not> startsWithSeparator (normalizedServiceName ''[Production] On-Call'')" by code_simp
  have b: "startsWithSeparator (normalizedServiceName ''__init__'')" by code_simp
  show ?thesis
    using normalizedServiceName_twice [of "''[Production] On-Call''"]
      normalizedServiceName_twice [of "''__init__''"] a b by simp
qed

section \<open>The paginated reads return what was served\<close>

lemma serves_Nil: "serves page first step []"
  by (simp add: serves_def)

lemma serves_Cons:
  "serves page first step (p # ps) = (page first = Inr p \<and> p \<noteq> [] \<and> serves page (first + step) step ps)"
proof -
  have "map (\<lambda>i. page (first + i * step)) [0..<Suc (length ps)]
      = page first # map (\<lambda>i. page (first + step + i * step)) [0..<length ps]"
    by (simp add: upt_conv_Cons map_Suc_upt [symmetric] add.assoc del: upt_Suc)
  then show ?thesis by (auto simp: serves_def)
qed

lemma requests_Suc:
  "map (\<lambda>i. get (first + i * step)) [0..<Suc (Suc n)]
     = get first # map (\<lambda>i. (get (first + step + i * step) :: call)) [0..<Suc n]"
  by (simp add: upt_conv_Cons map_Suc_upt [symmetric] add.assoc del: upt_Suc)

lemma fetchPages_serves:
  "serves page first step ps \<Longrightarrow> endsAt page (first + length ps * step) \<Longrightarrow>
   fetchPages page get step first items st
     = Some (items @ concat ps,
             st\<lparr>calls := calls st @ map (\<lambda>i. get (first + i * step)) [0..<Suc (length ps)]\<rparr>)"
proof (induction ps arbitrary: first items st)
  case Nil
  then show ?case
    by (subst fetchPages.simps) (auto simp: endsAt_def request_def split: sum.splits)
next
  case (Cons p ps)
  from Cons.prems(1) have p: "page first = Inr p" "p \<noteq> []" and rest: "serves page (first + step) step ps"
    by (simp_all add: serves_Cons)
  from Cons.prems(2) have e: "endsAt page (first + step + length ps * step)"
    by (simp add: add.assoc)
  have "fetchPages page get step first items st
      = fetchPages page get step (first + step) (items @ p) (request (get first) st)"
    using p by (subst fetchPages.simps) simp
  also have "\<dots> = Some ((items @ p) @ concat ps,
      (request (get first) st)\<lparr>calls := calls (request (get first) st)
         @ map (\<lambda>i. get (first + step + i * step)) [0..<Suc (length ps)]\<rparr>)"
    by (rule Cons.IH [OF rest e])
  also have "\<dots> = Some (items @ concat (p # ps),
      st\<lparr>calls := calls st @ map (\<lambda>i. get (first + i * step)) [0..<Suc (length (p # ps))]\<rparr>)"
    by (simp add: request_def requests_Suc del: upt_Suc)
  finally show ?case .
qed

text \<open>
  Claim C7: for each of the three paginated reads (PagerDuty services, Rootly services, Datadog
  monitors), when the listing serves non-empty pages and then an empty page or a failure,
  the read returns: it yields the concatenation, in order, of exactly the pages served before
  that point, and it has sent one request per page and the one that ended it, and none after.
  A failure is not passed on: the result is the list gathered so far, and the run goes on.
\<close>

theorem paginated_fetch:
  assumes "serves (pagerdutyServices rem) 0 25 pd" and "endsAt (pagerdutyServices rem) (25 * length pd)"
    and "serves (rootlyServices rem) 1 1 ro" and "endsAt (rootlyServices rem) (1 + length ro)"
    and "serves (monitors rem) 0 1 mo" and "endsAt (monitors rem) (length mo)"
  shows "fetchAndCachePagerdutyServices rem st
           = Some (st\<lparr>pagerdutyServicesCache := concat pd,
                       calls := calls st @ map (\<lambda>i. GetPagerdutyServices 25 (25 * i)) [0..<Suc (length pd)]\<rparr>)
       \<and> fetchAndCacheRootlyServices rem st
           = Some (st\<lparr>rootlyServicesCache := concat ro,
                       calls := calls st @ map (\<lambda>i. GetRootlyServices (1 + i) 100) [0..<Suc (length ro)]\<rparr>)
       \<and> fetchDatadogMonitors rem st
           = Some (concat mo,
                   st\<lparr>calls := calls st @ map (\<lambda>i. GetMonitors i 100) [0..<Suc (length mo)]\<rparr>)"
proof -
  have a: "fetchPages (pagerdutyServices rem) (GetPagerdutyServices 25) 25 0 [] st
      = Some ([] @ concat pd, st\<lparr>calls := calls st
          @ map (\<lambda>i. GetPagerdutyServices 25 (0 + i * 25)) [0..<Suc (length pd)]\<rparr>)"
    using assms(1,2) by (intro fetchPages_serves) (simp_all add: mult.commute)
  have b: "fetchPages (rootlyServices rem) (\<lambda>page. GetRootlyServices page 100) 1 1 [] st
      = Some ([] @ concat ro, st\<lparr>calls := calls st
          @ map (\<lambda>i. GetRootlyServices (1 + i * 1) 100) [0..<Suc (length ro)]\<rparr>)"
    using assms(3,4) by (intro fetchPages_serves) simp_all
  have c: "fetchPages (monitors rem) (\<lambda>page. GetMonitors page 100) 1 0 [] st
      = Some ([] @ concat mo, st\<lparr>calls := calls st
          @ map (\<lambda>i. GetMonitors (0 + i * 1) 100) [0..<Suc (length mo)]\<rparr>)"
    using assms(5,6) by (intro fetchPages_serves) simp_all
  show ?thesis
    unfolding fetchAndCachePagerdutyServices_def fetchAndCacheRootlyServices_def
      fetchDatadogMonitors_def a b c
    by (simp add: mult.commute del: upt_Suc)
qed

text \<open>
  Claim C7 on the concrete remote side: PagerDuty fails on its second page, Rootly and Datadog
  end with an empty page.
\<close>

theorem paginated_fetch_witness:
  "fetchAndCachePagerdutyServices (world (monitorWith ''quiet'') None) initial
     = Some (initial\<lparr>pagerdutyServicesCache := directory_pagerduty,
                      calls := [GetPagerdutyServices 25 0, GetPagerdutyServices 25 25]\<rparr>)
   \<and> fetchAndCacheRootlyServices (world (monitorWith ''quiet'') None) initial
     = Some (initial\<lparr>rootlyServicesCache := directory_rootly,
                      calls := [GetRootlyServices 1 100, GetRootlyServices 2 100]\<rparr>)
   \<and> fetchDatadogMonitors (world (monitorWith ''quiet'') None) initial
     = Some ([monitorWith ''quiet''], initial\<lparr>calls := [GetMonitors 0 100, GetMonitors 1 100]\<rparr>)"
proof -
  let ?w = "world (monitorWith ''quiet'') None"
  have 1: "serves (pagerdutyServices ?w) 0 25 [directory_pagerduty]"
    by (simp add: serves_def world_def directory_pagerduty_def)
  have 2: "endsAt (pagerdutyServices ?w) (25 * length [directory_pagerduty])"
    by (simp add: endsAt_def world_def)
  have 3: "serves (rootlyServices ?w) 1 1 [directory_rootly]"
    by (simp add: serves_def world_def directory_rootly_def)
  have 4: "endsAt (rootlyServices ?w) (1 + length [directory_rootly])"
    by (simp add: endsAt_def world_def)
  have 5: "serves (monitors ?w) 0 1 [[monitorWith ''quiet'']]"
    by (simp add: serves_def world_def)
  have 6: "endsAt (monitors ?w) (length [[monitorWith ''quiet'']])"
    by (simp add: endsAt_def world_def)
  show ?thesis
    using paginated_fetch [OF 1 2 3 4 5 6, of initial] by (simp add: initial_def)
qed

section \<open>Start-up validation\<close>

text \<open>
  Claim C9 does not hold as stated: the shared secret \<^verbatim>\<open>ROOTLY_ALERT_SOURCE_SECRET\<close> is one of
  the \<^verbatim>\<open>requiredEnvVars\<close>. With the four credentials set and only the secret absent, the
  process exits with code 1 whatever the remote side is, and has sent nothing.
\<close>

theorem secret_is_required:
  "truthy (env_without_secret ''DATADOG_API_KEY'') \<and> truthy (env_without_secret ''DATADOG_APP_KEY'')
     \<and> truthy (env_without_secret ''PAGERDUTY_API_TOKEN'') \<and> truthy (env_without_secret ''ROOTLY_API_TOKEN'')
     \<and> (\<forall>rem. program env_without_secret rem = Some (Exited 1 []))"
  by (simp add: program_def missingEnvVar_def requiredEnvVars_def env_without_secret_def
      env_normal_def truthy_def initial_def)

text \<open>
  Claim C9, amended: at start-up the process exits with code 1, before it has sent any
  request, exactly when one of the five required variables is unset or empty: the four
  credentials \<^verbatim>\<open>DATADOG_API_KEY\<close>, \<^verbatim>\<open>DATADOG_APP_KEY\<close>, \<^verbatim>\<open>PAGERDUTY_API_TOKEN\<close>,
  \<^verbatim>\<open>ROOTLY_API_TOKEN\<close>, and the shared secret \<^verbatim>\<open>ROOTLY_ALERT_SOURCE_SECRET\<close>. Otherwise it runs
  \<open>main\<close>. Nothing else is required (the base URL and the dry-run flag are optional). The
  older \<^verbatim>\<open>src/index.js\<close>, which has no shared secret, requires the four credentials only.
\<close>

theorem startup_validation:
  "program env rem =
     (if truthy (env ''DATADOG_API_KEY'') \<and> truthy (env ''DATADOG_APP_KEY'')
         \<and> truthy (env ''PAGERDUTY_API_TOKEN'') \<and> truthy (env ''ROOTLY_API_TOKEN'')
         \<and> truthy (env ''ROOTLY_ALERT_SOURCE_SECRET'')
      then map_option Completed (main env rem initial)
      else Some (Exited 1 []))
   \<and> (missingEnvVar requiredEnvVars_index_js env = None) =
       (truthy (env ''DATADOG_API_KEY'') \<and> truthy (env ''DATADOG_APP_KEY'')
         \<and> truthy (env ''PAGERDUTY_API_TOKEN'') \<and> truthy (env ''ROOTLY_API_TOKEN''))"
  by (simp add: program_def missingEnvVar_def requiredEnvVars_def requiredEnvVars_index_js_def
      initial_def)

text \<open>
  The amended claim C9 on two environments: with all five variables set the run goes through
  its requests; without the secret it exits at once.
\<close>

theorem startup_validation_witness:
  "map_option sent (program env_normal (world (monitorWith ''alert @pagerduty-checkout is firing'') None))
     = Some [GetRootlyServices 1 100, GetRootlyServices 2 100,
             GetPagerdutyServices 25 0, GetPagerdutyServices 25 25,
             GetMonitors 0 100, GetMonitors 1 100,
             PostWebhook ''rootly-checkout'' ''R1'' (Some ''set''),
             GetMonitor ''7'',
             PutMonitor ''7'' (monitorWith ''alert @pagerduty-checkout @webhook-rootly-checkout is firing'')]
   \<and> program env_without_secret (world (monitorWith ''alert @pagerduty-checkout is firing'') None)
     = Some (Exited 1 [])"
proof -
  let ?w = "world (monitorWith ''alert @pagerduty-checkout is firing'') None"
  have t: "truthy (env_normal ''DATADOG_API_KEY'')" "truthy (env_normal ''DATADOG_APP_KEY'')"
    "truthy (env_normal ''PAGERDUTY_API_TOKEN'')" "truthy (env_normal ''ROOTLY_API_TOKEN'')"
    "truthy (env_normal ''ROOTLY_ALERT_SOURCE_SECRET'')"
    by (simp_all add: env_normal_def requiredEnvVars_def truthy_def)
  have f: "\<not> truthy (env_without_secret ''ROOTLY_ALERT_SOURCE_SECRET'')"
    by (simp add: env_without_secret_def truthy_def)
  have m: "map_option calls (main env_normal ?w initial)
     = Some [GetRootlyServices 1 100, GetRootlyServices 2 100,
             GetPagerdutyServices 25 0, GetPagerdutyServices 25 25,
             GetMonitors 0 100, GetMonitors 1 100,
             PostWebhook ''rootly-checkout'' ''R1'' (Some ''set''),
             GetMonitor ''7'',
             PutMonitor ''7'' (monitorWith ''alert @pagerduty-checkout @webhook-rootly-checkout is firing'')]"
    by code_simp
  have s: "map_option sent (map_option Completed x) = map_option calls x" for x
    by (cases x) (simp_all add: sent_def)
  show ?thesis
    using startup_validation [of env_normal ?w] startup_validation [of env_without_secret ?w]
      t f m s
    by simp
qed

section \<open>Notifications and their service names\<close>

text \<open>
  Every notification that \<open>matchAll\<close> returns is the literal text followed by at least one
  character, none of them white space. Split at \<^verbatim>\<open>@pagerduty-\<close>, it gives an empty first piece
  and at least one more, so the index \<open>1\<close> in \<open>serviceNameOf\<close> is in range.
\<close>

lemma splitFrom_nonempty: "splitFrom separator piece s \<noteq> []"
  by (induction separator piece s rule: splitFrom.induct) simp_all

lemma matchAll_elements:
  "x \<in> set (matchAll literal s) \<Longrightarrow>
     \<exists>body. x = literal @ body \<and> body \<noteq> [] \<and> list_all (\<lambda>d. \<not> isSpace d) body"
proof (induction literal s rule: matchAll.induct)
  case (1 literal)
  then show ?case by simp
next
  case (2 literal c cs)
  show ?case
  proof (cases "matchesAt literal (c # cs)")
    case True
    let ?rest = "drop (length literal) (c # cs)"
    from True obtain d ds where r: "?rest = d # ds" "\<not> isSpace d"
      by (auto simp: matchesAt_def split: list.splits)
    have "takeWhile (\<lambda>d. \<not> isSpace d) ?rest \<noteq> []" unfolding r using r(2) by simp
    moreover have "list_all (\<lambda>d. \<not> isSpace d) (takeWhile (\<lambda>d. \<not> isSpace d) ?rest)"
      by (rule list_all_takeWhile)
    ultimately show ?thesis using True 2 by auto
  next
    case False
    with 2 show ?thesis by simp
  qed
qed

lemma split_notification:
  assumes "n \<in> set (matchAll ''@pagerduty-'' s)"
  shows "\<exists>body pieces. n = ''@pagerduty-'' @ body
           \<and> split ''@pagerduty-'' n = [] # pieces \<and> pieces \<noteq> []
           \<and> serviceNameOf n = hd pieces"
proof -
  from matchAll_elements [OF assms] obtain body where b: "n = ''@pagerduty-'' @ body" by blast
  have "split ''@pagerduty-'' n = [] # splitFrom ''@pagerduty-'' [] body"
    unfolding b by (simp add: split_def)
  moreover have "splitFrom ''@pagerduty-'' [] body \<noteq> []" by (rule splitFrom_nonempty)
  ultimately show ?thesis
    using b by (cases "splitFrom ''@pagerduty-'' [] body") (auto simp: serviceNameOf_def)
qed

section \<open>Monitors that are already migrated\<close>

lemma matchesAt_literal: "\<not> isSpace c \<Longrightarrow> matchesAt literal (literal @ c # rest)"
  by (simp add: matchesAt_def)

lemma hasMatch_here: "matchesAt literal s \<Longrightarrow> hasMatch literal s"
  by (cases s) (simp_all add: matchesAt_def)

lemma hasMatch_append: "hasMatch literal s \<Longrightarrow> hasMatch literal (pre @ s)"
  by (induction pre) simp_all

lemma hasMatch_occurrence:
  "\<not> isSpace c \<Longrightarrow> hasMatch literal (pre @ literal @ c # rest)"
  by (intro hasMatch_append hasMatch_here matchesAt_literal)

lemma matchesAt_split:
  "matchesAt literal s \<Longrightarrow> \<exists>c rest. s = literal @ c # rest \<and> \<not> isSpace c"
proof -
  assume a: "matchesAt literal s"
  then obtain d ds where "drop (length literal) s = d # ds" "\<not> isSpace d"
    by (auto simp: matchesAt_def split: list.splits)
  moreover from a have "take (length literal) s = literal" by (simp add: matchesAt_def)
  ultimately have "s = literal @ d # ds" by (metis append_take_drop_id)
  with \<open>\<not> isSpace d\<close> show ?thesis by blast
qed

lemma hasMatch_split:
  "hasMatch literal s \<Longrightarrow> \<exists>pre c rest. s = pre @ literal @ c # rest \<and> \<not> isSpace c"
proof (induction s)
  case Nil
  then show ?case by simp
next
  case (Cons a s)
  show ?case
  proof (cases "matchesAt literal (a # s)")
    case True
    then obtain c rest where "a # s = literal @ c # rest" "\<not> isSpace c"
      using matchesAt_split by blast
    then have "a # s = [] @ literal @ c # rest \<and> \<not> isSpace c" by simp
    then show ?thesis by blast
  next
    case False
    with Cons.prems have "hasMatch literal s" by simp
    then obtain pre c rest where "s = pre @ literal @ c # rest" "\<not> isSpace c"
      using Cons.IH by blast
    then have "a # s = (a # pre) @ literal @ c # rest \<and> \<not> isSpace c" by simp
    then show ?thesis by blast
  qed
qed

text \<open>
  Claim C4: a monitor whose message contains the marker of a completed migration, that is, the
  text \<^verbatim>\<open>@webhook-rootly-\<close> followed by a character that is not white space, is skipped:
  \<open>processMonitor\<close> pushes exactly one record, the skip record, and changes nothing else. It
  sends no request at all, so in particular no write, and it does not look at the monitor's
  notifications.
\<close>

theorem marked_monitor_is_skipped:
  assumes "message m = pre @ ''@webhook-rootly-'' @ c # rest" and "\<not> isSpace c"
  shows "processMonitor env rem m st
           = st\<lparr>results := results st @
                  [\<lparr>monitor = m, old = None, new = None, oldMessage = None, newMessage = None,
                    error = Some (''Skipping monitor ID: '' @ monitor_id m
                                    @ '' as it already contains @webhook-rootly.'')\<rparr>]\<rparr>
       \<and> calls (processMonitor env rem m st) = calls st"
proof -
  have "hasMatch ''@webhook-rootly-'' (message m)"
    unfolding assms(1) using assms(2) by (rule hasMatch_occurrence)
  then show ?thesis
    by (simp add: processMonitor_def push_def skipped_def)
qed

text \<open>Claim C4 on a monitor that an earlier run has rewritten.\<close>

theorem marked_monitor_is_skipped_witness:
  "processMonitor env_normal (world (monitorWith ''alert @pagerduty-checkout @webhook-rootly-checkout is firing'') None)
      (monitorWith ''alert @pagerduty-checkout @webhook-rootly-checkout is firing'') cached
     = cached\<lparr>results :=
         [\<lparr>monitor = monitorWith ''alert @pagerduty-checkout @webhook-rootly-checkout is firing'',
           old = None, new = None, oldMessage = None, newMessage = None,
           error = Some ''Skipping monitor ID: 7 as it already contains @webhook-rootly.''\<rparr>]\<rparr>"
proof -
  let ?m = "monitorWith ''alert @pagerduty-checkout @webhook-rootly-checkout is firing''"
  have 1: "message ?m = ''alert @pagerduty-checkout '' @ ''@webhook-rootly-'' @ CHR ''c'' # ''heckout is firing''"
    by (simp add: monitorWith_def)
  have 2: "\<not> isSpace (CHR ''c'')"
    by (simp add: isSpace_def)
  show ?thesis
    using marked_monitor_is_skipped [OF 1 2, of env_normal "world ?m None" cached]
    by (simp add: cached_def initial_def monitorWith_def)
qed

section \<open>What the three rounds over the callbacks do\<close>

lemma callbackStart_results:
  "callbackStart m n (st\<lparr>results := rs\<rparr>)
     = (fst (callbackStart m n st), st\<lparr>results := rs @ startMiss m st n\<rparr>)"
  by (simp add: callbackStart_def startMiss_def getPagerdutyServiceId_def fetchRootlyServiceId_def
      push_def Let_def truthy_def split: option.splits)

lemma resumeAll_callbackStart_results:
  "resumeAll (callbackStart m) ns (st\<lparr>results := rs\<rparr>)
     = (map (\<lambda>n. fst (callbackStart m n st)) ns,
        st\<lparr>results := rs @ concat (map (startMiss m st) ns)\<rparr>)"
proof (induction ns arbitrary: rs)
  case Nil
  then show ?case by simp
next
  case (Cons n ns)
  show ?case
    by (simp only: resumeAll.simps callbackStart_results Cons.IH prod.case list.map concat.simps
        append_assoc)
qed

lemma resumeAll_callbackStart:
  "resumeAll (callbackStart m) ns st
     = (map (\<lambda>n. fst (callbackStart m n st)) ns,
        st\<lparr>results := results st @ concat (map (startMiss m st) ns)\<rparr>)"
  using resumeAll_callbackStart_results [where st = st and rs = "results st"] by simp

lemma createDatadogWebhook_effect:
  "createDatadogWebhook env rem serviceName rid st = ((t, r), st') \<Longrightarrow>
     results st' = results st \<and> sameCaches st' st \<and>
     calls st' = calls st @ (if truthy (DRY_RUN env) then []
                             else [webhookRequest env (notification, serviceName, rid)]) \<and>
     (truthy (DRY_RUN env) \<longrightarrow> t = 0 \<and> r = Inr ())"
  by (auto simp: createDatadogWebhook_def webhookRequest_def request_def sameCaches_def Let_def
      split: if_splits option.splits http_error.splits)

lemma callbackAfterLookup_effect:
  assumes "callbackAfterLookup env rem m p st = (p', st')"
  shows "results st' = results st @ lookupMiss m p"
    and "calls st' = calls st @ (if truthy (DRY_RUN env) then []
                                 else map (webhookRequest env) (lookupHit p))"
    and "sameCaches st' st"
    and "awaited p' = awaited p @ map (\<lambda>(n, svc, rid). (n, svc)) (lookupHit p)"
    and "truthy (DRY_RUN env) \<Longrightarrow> \<not> rejected p \<Longrightarrow> \<not> rejected p'"
    and "truthy (DRY_RUN env) \<Longrightarrow> settlesAt p = 0 \<Longrightarrow> settlesAt p' = 0"
proof -
  show "results st' = results st @ lookupMiss m p"
    using assms
    by (cases p) (auto simp: callbackAfterLookup_def push_def truthy_def
        dest: createDatadogWebhook_effect split: option.splits if_splits prod.splits)
  show "calls st' = calls st @ (if truthy (DRY_RUN env) then []
                                 else map (webhookRequest env) (lookupHit p))"
    using assms
    by (cases p) (auto simp: callbackAfterLookup_def push_def truthy_def
        dest: createDatadogWebhook_effect split: option.splits if_splits prod.splits)
  show "sameCaches st' st"
    using assms
    by (cases p) (auto simp: callbackAfterLookup_def push_def truthy_def sameCaches_def
        dest: createDatadogWebhook_effect split: option.splits if_splits prod.splits)
  show "awaited p' = awaited p @ map (\<lambda>(n, svc, rid). (n, svc)) (lookupHit p)"
    using assms
    by (cases p) (auto simp: callbackAfterLookup_def push_def truthy_def
        split: option.splits if_splits prod.splits)
  show "truthy (DRY_RUN env) \<Longrightarrow> \<not> rejected p \<Longrightarrow> \<not> rejected p'"
    using assms
    by (cases p) (auto simp: callbackAfterLookup_def push_def truthy_def
        dest: createDatadogWebhook_effect split: option.splits if_splits prod.splits)
  show "truthy (DRY_RUN env) \<Longrightarrow> settlesAt p = 0 \<Longrightarrow> settlesAt p' = 0"
    using assms
    by (cases p) (auto simp: callbackAfterLookup_def push_def truthy_def
        dest: createDatadogWebhook_effect split: option.splits if_splits prod.splits)
qed

lemma sameCaches_refl: "sameCaches st st"
  by (simp add: sameCaches_def)

lemma sameCaches_trans: "sameCaches a b \<Longrightarrow> sameCaches b c \<Longrightarrow> sameCaches a c"
  by (simp add: sameCaches_def)

lemma resumeAll_callbackAfterLookup:
  assumes "resumeAll (callbackAfterLookup env rem m) ps st = (ps', st')"
  shows "results st' = results st @ concat (map (lookupMiss m) ps)
       \<and> calls st' = calls st @ (if truthy (DRY_RUN env) then []
                                  else map (webhookRequest env) (concat (map lookupHit ps)))
       \<and> sameCaches st' st
       \<and> concat (map awaited ps')
           = concat (map (\<lambda>p. awaited p @ map (\<lambda>(n, svc, rid). (n, svc)) (lookupHit p)) ps)
       \<and> (truthy (DRY_RUN env) \<longrightarrow> list_all (\<lambda>p. \<not> rejected p) ps
            \<longrightarrow> list_all (\<lambda>p. \<not> rejected p) ps')
       \<and> (truthy (DRY_RUN env) \<longrightarrow> list_all (\<lambda>p. settlesAt p = 0) ps
            \<longrightarrow> list_all (\<lambda>p. settlesAt p = 0) ps')"
  using assms
proof (induction ps arbitrary: st ps' st')
  case Nil
  then show ?case by (simp add: sameCaches_refl)
next
  case (Cons p ps)
  obtain q st1 where 1: "callbackAfterLookup env rem m p st = (q, st1)"
    by (cases "callbackAfterLookup env rem m p st")
  obtain qs st2 where 2: "resumeAll (callbackAfterLookup env rem m) ps st1 = (qs, st2)"
    by (cases "resumeAll (callbackAfterLookup env rem m) ps st1")
  from Cons.prems 1 2 have e: "ps' = q # qs" "st' = st2" by simp_all
  note a = callbackAfterLookup_effect [OF 1]
  note b = Cons.IH [OF 2]
  show ?case
    unfolding e using a b
    apply (intro conjI)
         apply simp
        apply simp
       apply (blast intro: sameCaches_trans)
      apply simp
     apply simp
    apply simp
    done
qed

subsection \<open>The order in which the callbacks end\<close>

lemma insort_key_map: "insort_key f (g x) (map g xs) = map g (insort_key (\<lambda>y. f (g y)) x xs)"
  by (induction xs) simp_all

lemma sort_key_map: "sort_key f (map g xs) = map g (sort_key (\<lambda>y. f (g y)) xs)"
  by (induction xs) (simp_all add: insort_key_map)

lemma sort_key_restore:
  assumes "sorted (map f xs)" and "distinct (map f xs)"
  shows "sort_key f (sort_key k xs) = xs"
proof -
  let ?ys = "sort_key f (sort_key k xs)"
  have s: "set ?ys = set xs" by simp
  from assms(2) have d: "distinct xs" and i: "inj_on f (set xs)"
    by (simp_all add: distinct_map)
  have "distinct ?ys" using d by simp
  with i s have "distinct (map f ?ys)" by (simp add: distinct_map)
  moreover have "sorted (map f ?ys)" by (rule sorted_sort_key)
  moreover have "set (map f ?ys) = set (map f xs)" using s by simp
  ultimately have "map f ?ys = map f xs"
    using assms by (intro sorted_distinct_set_unique)
  moreover have "inj_on f (set ?ys \<union> set xs)" using i s by simp
  ultimately show ?thesis by (simp add: inj_on_map_eq_map)
qed

lemma sort_key_enumerate:
  "map snd (sort_key (\<lambda>(i, x). t x) (enumerate n xs)) = sort_key t xs"
proof -
  have "sort_key t (map snd (enumerate n xs)) = map snd (sort_key (\<lambda>y. t (snd y)) (enumerate n xs))"
    by (rule sort_key_map)
  then show ?thesis by (simp add: case_prod_unfold)
qed

lemma sort_key_fst_enumerate:
  "sort_key fst (sort_key k (enumerate n xs)) = enumerate n xs"
  by (rule sort_key_restore) simp_all

lemma mset_concat_sort_key: "mset (concat (map g (sort_key k xs))) = mset (concat (map g xs))"
proof -
  have "mset (map (\<lambda>x. mset (g x)) (sort_key k xs)) = mset (map (\<lambda>x. mset (g x)) xs)"
    by simp
  then have "sum_list (map (\<lambda>x. mset (g x)) (sort_key k xs)) = sum_list (map (\<lambda>x. mset (g x)) xs)"
    by (metis sum_mset_sum_list)
  then show ?thesis by (simp add: mset_concat comp_def)
qed

lemma firstRejection_None:
  "(firstRejection rs = None) = (\<forall>r \<in> set rs. \<exists>y. r = Inr y)"
proof (induction rs)
  case Nil
  then show ?case by (simp add: firstRejection_def List.map_filter_def)
next
  case (Cons r rs)
  then show ?case
    by (cases r) (auto simp: firstRejection_def List.map_filter_def split: list.splits)
qed

lemma firstRejection_Some: "firstRejection rs \<noteq> None \<Longrightarrow> firstRejection rs = Some TypeError"
  by (cases "firstRejection rs") (auto intro: exn.exhaust)

lemma resumeAll_indexed:
  assumes "\<And>x s. f x s = (v x, s\<lparr>results := results s @ w x\<rparr>)"
  shows "resumeAll (\<lambda>(i, x) s. case f x s of (r, s') \<Rightarrow> ((i, r), s')) ys st
       = (map (\<lambda>(i, x). (i, v x)) ys,
          st\<lparr>results := results st @ concat (map (\<lambda>(i, x). w x) ys)\<rparr>)"
proof -
  have g: "(\<lambda>(i, x) s. case f x s of (r, s') \<Rightarrow> ((i, r), s'))
      = (\<lambda>(i :: 'c, x) s. ((i, v x), s\<lparr>results := results s @ w x\<rparr>))"
    by (simp add: assms)
  have "resumeAll (\<lambda>(i :: 'c, x) s. ((i, v x), s\<lparr>results := results s @ w x\<rparr>)) ys st
       = (map (\<lambda>(i, x). (i, v x)) ys,
          st\<lparr>results := results st @ concat (map (\<lambda>(i, x). w x) ys)\<rparr>)"
  proof (induction ys arbitrary: st)
    case Nil
    then show ?case by simp
  next
    case (Cons y ys)
    obtain i x where y: "y = (i, x)" by (cases y)
    show ?case
      by (simp add: y Cons.IH)
  qed
  then show ?thesis by (simp only: g)
qed

lemma promiseAll_values:
  assumes "\<And>x s. f x s = (v x, s\<lparr>results := results s @ w x\<rparr>)"
  shows "promiseAll f t xs st =
     ((case firstRejection (map v (sort_key t xs)) of
         Some e \<Rightarrow> Inl e
       | None \<Rightarrow> Inr (List.map_filter (\<lambda>r. case r of Inl e \<Rightarrow> None | Inr y \<Rightarrow> Some y) (map v xs))),
      st\<lparr>results := results st @ concat (map w (sort_key t xs))\<rparr>)"
proof -
  let ?ys = "sort_key (\<lambda>(i, x). t x) (enumerate 0 xs)"
  let ?h = "\<lambda>(i :: nat, x). (i, v x)"
  have h: "(\<lambda>y. fst (?h y)) = fst" by auto
  have 1: "map snd (map ?h ?ys) = map v (sort_key t xs)"
  proof -
    have "map snd (map ?h ?ys) = map v (map snd ?ys)" by (simp add: case_prod_unfold)
    then show ?thesis by (simp only: sort_key_enumerate)
  qed
  have 2: "concat (map (\<lambda>(i, x). w x) ?ys) = concat (map w (sort_key t xs))"
  proof -
    have "map (\<lambda>(i, x). w x) ?ys = map w (map snd ?ys)" by (simp add: case_prod_unfold)
    then show ?thesis by (simp only: sort_key_enumerate)
  qed
  have 3: "sort_key fst (map ?h ?ys) = map ?h (enumerate 0 xs)"
    by (simp only: sort_key_map h sort_key_fst_enumerate)
  have 4: "List.map_filter (\<lambda>(i, r). case r of Inl e \<Rightarrow> None | Inr y \<Rightarrow> Some y) (map ?h (enumerate 0 xs))
      = List.map_filter (\<lambda>r. case r of Inl e \<Rightarrow> None | Inr y \<Rightarrow> Some y) (map v xs)"
  proof -
    have "map snd (map ?h (enumerate 0 xs)) = map v (map snd (enumerate 0 xs))"
      by (simp add: case_prod_unfold comp_def del: map_snd_enumerate)
    also have "\<dots> = map v xs"
      by (simp only: map_snd_enumerate)
    finally have e: "map snd (map ?h (enumerate 0 xs)) = map v xs" .
    have "List.map_filter (\<lambda>(i, r). case r of Inl e \<Rightarrow> None | Inr y \<Rightarrow> Some y) zs
        = List.map_filter (\<lambda>r. case r of Inl e \<Rightarrow> None | Inr y \<Rightarrow> Some y) (map snd zs)"
      for zs :: "(nat \<times> (exn + 'c)) list"
      by (induction zs) (auto simp: List.map_filter_def split: sum.splits)
    from this [of "map ?h (enumerate 0 xs)"] show ?thesis by (simp only: e)
  qed
  show ?thesis
    apply (simp only: promiseAll_def resumeAll_indexed [of f v w, OF assms] prod.case 1 2 3 4)
    apply (simp split: option.splits)
    done
qed

lemma callbackAfterWebhook_shape:
  "callbackAfterWebhook m p st
     = (fst (callbackAfterWebhook m p initial),
        st\<lparr>results := results st @ map (appendedOf m) (accepted p)\<rparr>)"
proof (cases p)
  case (AwaitingWebhook n svc t r)
  then show ?thesis
    by (cases r) (simp_all add: callbackAfterWebhook_def push_def appendedOf_def patchOf_def Let_def)
qed (simp_all add: callbackAfterWebhook_def)

lemma callbackAfterWebhook_value:
  shows "rejected p \<Longrightarrow> fst (callbackAfterWebhook m p st) = Inl TypeError"
    and "\<not> rejected p \<Longrightarrow> \<exists>y. fst (callbackAfterWebhook m p st) = Inr y
           \<and> List.map_filter (\<lambda>patch. patch) [y] = map patchOf (awaited p)"
    and "\<not> rejected p \<Longrightarrow> accepted p = awaited p"
    and "set (accepted p) \<subseteq> set (awaited p)"
proof -
  show "rejected p \<Longrightarrow> fst (callbackAfterWebhook m p st) = Inl TypeError"
    by (cases p rule: rejected.cases)
      (auto simp: callbackAfterWebhook_def intro: exn.exhaust)
  show "\<not> rejected p \<Longrightarrow> \<exists>y. fst (callbackAfterWebhook m p st) = Inr y
           \<and> List.map_filter (\<lambda>patch. patch) [y] = map patchOf (awaited p)"
    by (cases p rule: accepted.cases)
      (auto simp: callbackAfterWebhook_def List.map_filter_def patchOf_def Let_def)
  show "\<not> rejected p \<Longrightarrow> accepted p = awaited p"
    by (cases p rule: accepted.cases) auto
  show "set (accepted p) \<subseteq> set (awaited p)"
    by (cases p rule: accepted.cases) auto
qed

lemma fulfilled_values:
  assumes "list_all (\<lambda>p. \<not> rejected p) ps"
  shows "List.map_filter (\<lambda>patch. patch)
           (List.map_filter (\<lambda>r. case r of Inl e \<Rightarrow> None | Inr y \<Rightarrow> Some y)
              (map (\<lambda>p. fst (callbackAfterWebhook m p st)) ps))
         = map patchOf (concat (map awaited ps))"
  using assms
proof (induction ps)
  case Nil
  then show ?case by (simp add: List.map_filter_def)
next
  case (Cons p ps)
  from Cons.prems have "\<not> rejected p" by simp
  from callbackAfterWebhook_value(2) [OF this, of m st] obtain y where
    y: "fst (callbackAfterWebhook m p st) = Inr y"
       "List.map_filter (\<lambda>patch. patch) [y] = map patchOf (awaited p)"
    by blast
  have "List.map_filter (\<lambda>patch. patch) (y # zs)
      = List.map_filter (\<lambda>patch. patch) [y] @ List.map_filter (\<lambda>patch. patch) zs" for zs
    by (simp add: List.map_filter_def)
  with Cons y show ?case by (simp add: List.map_filter_simps)
qed

lemma promiseAll_callbackAfterWebhook:
  assumes "promiseAll (callbackAfterWebhook m) settlesAt ps st = (res, st')"
  shows "st' = st\<lparr>results := results st
                  @ map (appendedOf m) (concat (map accepted (sort_key settlesAt ps)))\<rparr>"
    and "list_all (\<lambda>p. \<not> rejected p) ps \<Longrightarrow>
           \<exists>ys. res = Inr ys
              \<and> List.map_filter (\<lambda>patch. patch) ys = map patchOf (concat (map awaited ps))"
    and "\<not> list_all (\<lambda>p. \<not> rejected p) ps \<Longrightarrow> res = Inl TypeError"
proof -
  let ?v = "\<lambda>p. fst (callbackAfterWebhook m p initial)"
  let ?w = "\<lambda>p. map (appendedOf m) (accepted p)"
  let ?rej = "firstRejection (map ?v (sort_key settlesAt ps))"
  note pa = promiseAll_values [of "callbackAfterWebhook m" ?v ?w settlesAt ps st,
      OF callbackAfterWebhook_shape]
  from assms pa have res: "res = (case ?rej of Some e \<Rightarrow> Inl e
       | None \<Rightarrow> Inr (List.map_filter (\<lambda>r. case r of Inl e \<Rightarrow> None | Inr y \<Rightarrow> Some y) (map ?v ps)))"
    and st': "st' = st\<lparr>results := results st @ concat (map ?w (sort_key settlesAt ps))\<rparr>"
    by simp_all
  show "st' = st\<lparr>results := results st
                  @ map (appendedOf m) (concat (map accepted (sort_key settlesAt ps)))\<rparr>"
    unfolding st' by (simp add: map_concat comp_def)
  have none: "(?rej = None) = list_all (\<lambda>p. \<not> rejected p) ps"
  proof
    assume "?rej = None"
    then have "\<forall>p \<in> set ps. \<exists>y. ?v p = Inr y" by (simp add: firstRejection_None)
    then show "list_all (\<lambda>p. \<not> rejected p) ps"
      using callbackAfterWebhook_value(1) [of _ m initial] by (fastforce simp: list_all_iff)
  next
    assume "list_all (\<lambda>p. \<not> rejected p) ps"
    then have "\<forall>p \<in> set ps. \<exists>y. ?v p = Inr y"
      using callbackAfterWebhook_value(2) [of _ m initial] by (fastforce simp: list_all_iff)
    then show "?rej = None" by (simp add: firstRejection_None)
  qed
  show "\<exists>ys. res = Inr ys
              \<and> List.map_filter (\<lambda>patch. patch) ys = map patchOf (concat (map awaited ps))"
    if "list_all (\<lambda>p. \<not> rejected p) ps"
    using that none res fulfilled_values [OF that, of m initial] by simp
  show "res = Inl TypeError" if "\<not> list_all (\<lambda>p. \<not> rejected p) ps"
  proof -
    from that none have "?rej \<noteq> None" by simp
    then have "?rej = Some TypeError" by (rule firstRejection_Some)
    with res show ?thesis by simp
  qed
qed

lemma started_facts:
  "lookupHit (fst (callbackStart m n st)) = resolve st n"
  "lookupMiss m (fst (callbackStart m' n st)) = rootlyMiss m st n"
  "awaited (fst (callbackStart m n st)) = []"
  "\<not> rejected (fst (callbackStart m n st))"
  "settlesAt (fst (callbackStart m n st)) = 0"
  by (auto simp: callbackStart_def resolve_def rootlyMiss_def Let_def truthy_def split: option.splits)

text \<open>
  The effect of the three rounds: the requests are those for the notifications that have a
  PagerDuty service and a linked Rootly service, in turn; the records are those of the
  notifications without a PagerDuty service, then of those without a Rootly service, then one
  for each webhook creation that did not throw, in the order of the replies; and the value,
  where nothing threw, is the list of the patches in the order of the notifications.
\<close>

lemma collectPatches_effect:
  assumes "collectPatches env rem m ns st = (res, st')"
  shows "calls st' = calls st @ (if truthy (DRY_RUN env) then []
                                 else map (webhookRequest env) (concat (map (resolve st) ns)))"
    and "sameCaches st' st"
    and "\<exists>ended.
           set ended \<subseteq> set (map (\<lambda>(n, svc, rid). (n, svc)) (concat (map (resolve st) ns)))
           \<and> results st' = results st @ concat (map (startMiss m st) ns)
                 @ concat (map (rootlyMiss m st) ns) @ map (appendedOf m) ended
           \<and> (\<forall>patches. res = Inr patches \<longrightarrow>
                 patches = map patchOf (map (\<lambda>(n, svc, rid). (n, svc)) (concat (map (resolve st) ns)))
               \<and> mset ended = mset (map (\<lambda>(n, svc, rid). (n, svc)) (concat (map (resolve st) ns))))
           \<and> (truthy (DRY_RUN env) \<longrightarrow>
                 ended = map (\<lambda>(n, svc, rid). (n, svc)) (concat (map (resolve st) ns)))"
    and "truthy (DRY_RUN env) \<Longrightarrow> \<exists>patches. res = Inr patches"
    and "res = Inl TypeError \<or> (\<exists>patches. res = Inr patches)"
proof -
  let ?started = "map (\<lambda>n. fst (callbackStart m n st)) ns"
  let ?st1 = "st\<lparr>results := results st @ concat (map (startMiss m st) ns)\<rparr>"
  let ?hits = "map (\<lambda>(n, svc, rid). (n, svc)) (concat (map (resolve st) ns))"
  obtain looked st2 where 2: "resumeAll (callbackAfterLookup env rem m) ?started ?st1 = (looked, st2)"
    by (cases "resumeAll (callbackAfterLookup env rem m) ?started ?st1")
  obtain r3 st3 where 3: "promiseAll (callbackAfterWebhook m) settlesAt looked st2 = (r3, st3)"
    by (cases "promiseAll (callbackAfterWebhook m) settlesAt looked st2")
  from assms have res: "res = (case r3 of Inl e \<Rightarrow> Inl e
      | Inr ys \<Rightarrow> Inr (List.map_filter (\<lambda>patch. patch) ys))" and st': "st' = st3"
    by (auto simp: collectPatches_def resumeAll_callbackStart 2 3 split: sum.splits)
  have hits: "concat (map lookupHit ?started) = concat (map (resolve st) ns)"
    by (simp add: map_concat comp_def started_facts)
  have misses: "concat (map (lookupMiss m) ?started) = concat (map (rootlyMiss m st) ns)"
    by (simp add: comp_def started_facts)
  have aw: "concat (map (\<lambda>p. awaited p @ map (\<lambda>(n, svc, rid). (n, svc)) (lookupHit p)) ?started)
      = ?hits"
    by (simp add: comp_def started_facts map_concat)
  have nr: "list_all (\<lambda>p. \<not> rejected p) ?started"
    by (simp add: list_all_iff started_facts)
  have zero: "list_all (\<lambda>p. settlesAt p = 0) ?started"
    by (simp add: list_all_iff started_facts)
  note b = resumeAll_callbackAfterLookup [OF 2, unfolded hits misses aw]
  note c = promiseAll_callbackAfterWebhook [OF 3]
  let ?ended = "concat (map accepted (sort_key settlesAt looked))"
  have awaited: "concat (map awaited looked) = ?hits" using b by simp
  show "calls st' = calls st @ (if truthy (DRY_RUN env) then []
                                 else map (webhookRequest env) (concat (map (resolve st) ns)))"
    using b c(1) st' by simp
  have "sameCaches ?st1 st" by (simp add: sameCaches_def)
  moreover have "sameCaches st3 st2" using c(1) by (simp add: sameCaches_def)
  ultimately show "sameCaches st' st"
    using b st' by (blast intro: sameCaches_trans)
  have sub: "set ?ended \<subseteq> set ?hits"
  proof -
    have "set ?ended \<subseteq> set (concat (map awaited looked))"
      using callbackAfterWebhook_value(4) by fastforce
    then show ?thesis by (simp only: awaited)
  qed
  have r: "results st' = results st @ concat (map (startMiss m st) ns)
      @ concat (map (rootlyMiss m st) ns) @ map (appendedOf m) ?ended"
    using b c(1) st' by simp
  have all: "list_all (\<lambda>p. \<not> rejected p) looked \<Longrightarrow> concat (map accepted looked) = ?hits"
  proof -
    assume "list_all (\<lambda>p. \<not> rejected p) looked"
    then have "map accepted looked = map awaited looked"
      by (simp add: list_all_iff callbackAfterWebhook_value(3))
    then show ?thesis by (simp only: awaited)
  qed
  have f: "patches = map patchOf ?hits \<and> mset ?ended = mset ?hits" if "res = Inr patches" for patches
  proof -
    have ok: "list_all (\<lambda>p. \<not> rejected p) looked"
    proof (rule ccontr)
      assume "\<not> list_all (\<lambda>p. \<not> rejected p) looked"
      from c(3) [OF this] res that show False by simp
    qed
    from c(2) [OF ok] obtain ys where "r3 = Inr ys"
      "List.map_filter (\<lambda>patch. patch) ys = map patchOf (concat (map awaited looked))"
      by blast
    with res that have "patches = map patchOf ?hits" by (simp add: awaited)
    moreover have "mset ?ended = mset ?hits"
      using mset_concat_sort_key [of accepted settlesAt looked] all [OF ok] by simp
    ultimately show ?thesis by simp
  qed
  have dry: "list_all (\<lambda>p. \<not> rejected p) looked \<and> ?ended = ?hits" if "truthy (DRY_RUN env)"
  proof -
    from b that nr have ok: "list_all (\<lambda>p. \<not> rejected p) looked" by simp
    from b that zero have "list_all (\<lambda>p. settlesAt p = 0) looked" by simp
    then have "map settlesAt looked = replicate (length looked) 0"
      by (induction looked) simp_all
    then have "sorted (map settlesAt looked)" by simp
    then have "sort_key settlesAt looked = looked" by (rule sort_key_id_if_sorted)
    with all [OF ok] ok show ?thesis by simp
  qed
  show "\<exists>ended.
           set ended \<subseteq> set ?hits
           \<and> results st' = results st @ concat (map (startMiss m st) ns)
                 @ concat (map (rootlyMiss m st) ns) @ map (appendedOf m) ended
           \<and> (\<forall>patches. res = Inr patches \<longrightarrow>
                 patches = map patchOf ?hits \<and> mset ended = mset ?hits)
           \<and> (truthy (DRY_RUN env) \<longrightarrow> ended = ?hits)"
    using sub r f dry by (intro exI [of _ ?ended]) blast
  show "\<exists>patches. res = Inr patches" if "truthy (DRY_RUN env)"
  proof -
    from dry [OF that] c(2) obtain ys where "r3 = Inr ys" by blast
    with res show ?thesis by simp
  qed
  show "res = Inl TypeError \<or> (\<exists>patches. res = Inr patches)"
  proof (cases "list_all (\<lambda>p. \<not> rejected p) looked")
    case True
    from c(2) [OF True] res show ?thesis by auto
  next
    case False
    from c(3) [OF False] res show ?thesis by simp
  qed
qed

lemma postsFor_webhookRequest:
  "postsFor env st ns = (if truthy (DRY_RUN env) then []
                         else map (webhookRequest env) (concat (map (resolve st) ns)))"
  by (simp add: postsFor_def resolved_def webhookRequest_def case_prod_unfold)

lemma patchesFor_patchOf:
  "patchesFor st ns = map patchOf (map (\<lambda>(n, svc, rid). (n, svc)) (concat (map (resolve st) ns)))"
  by (simp add: patchesFor_def resolved_def patchOf_def case_prod_unfold comp_def)

lemma appendedOf_patchOf: "appendedOf m a = (\<lambda>(x, y). appended m x y) (patchOf a)"
  by (simp add: appendedOf_def)

lemma updateDatadogMonitor_effect:
  assumes "updateDatadogMonitor env rem monitorId patches st = (r, st')"
  shows "sameCaches st' st"
    and "case monitorFetched rem (calls st @ [GetMonitor monitorId]) of
           Inr (Some fetched) \<Rightarrow>
             results st' = results st @
               [\<lparr>monitor = fetched\<lparr>message := applyPatches (message fetched) patches\<rparr>,
                 old = None, new = None, oldMessage = Some (message fetched),
                 newMessage = Some (applyPatches (message fetched) patches), error = None\<rparr>]
             \<and> calls st' = calls st @ GetMonitor monitorId #
                 (if truthy (DRY_RUN env) then []
                  else (case writeRequest monitorId
                               (fetched\<lparr>message := applyPatches (message fetched) patches\<rparr>) of
                          Inr write \<Rightarrow> [write]
                        | Inl e \<Rightarrow> []))
         | _ \<Rightarrow> results st' = results st \<and> calls st' = calls st @ [GetMonitor monitorId]"
  using assms
  by (auto simp: updateDatadogMonitor_def request_def push_def sameCaches_def Let_def
      split: sum.splits option.splits if_splits)

lemma createDatadogWebhook_answered:
  "answered rem \<Longrightarrow> snd (fst (createDatadogWebhook env rem serviceName rid st)) = Inr ()"
  by (auto simp: createDatadogWebhook_def answered_def Let_def
      split: option.splits http_error.splits)

lemma callbackAfterLookup_answered:
  assumes "answered rem" and "\<not> rejected p"
  shows "\<not> rejected (fst (callbackAfterLookup env rem m p st))"
proof (cases p)
  case Settled
  then show ?thesis by (simp add: callbackAfterLookup_def)
next
  case (AwaitingRootly n svc pid rootlyId)
  show ?thesis
  proof (cases "truthy rootlyId")
    case True
    then obtain rid where "rootlyId = Some rid" by (cases rootlyId) (simp_all add: truthy_def)
    with True AwaitingRootly createDatadogWebhook_answered [OF assms(1), of env svc rid st]
    show ?thesis
      by (cases "createDatadogWebhook env rem svc rid st")
        (auto simp: callbackAfterLookup_def)
  next
    case False
    with AwaitingRootly show ?thesis by (simp add: callbackAfterLookup_def)
  qed
next
  case (AwaitingWebhook n svc t r)
  with assms(2) show ?thesis by (simp add: callbackAfterLookup_def)
qed

lemma resumeAll_answered:
  assumes "answered rem"
  shows "list_all (\<lambda>p. \<not> rejected p) ps \<Longrightarrow>
         list_all (\<lambda>p. \<not> rejected p) (fst (resumeAll (callbackAfterLookup env rem m) ps st))"
proof (induction ps arbitrary: st)
  case Nil
  then show ?case by simp
next
  case (Cons p ps)
  obtain q st1 where 1: "callbackAfterLookup env rem m p st = (q, st1)"
    by (cases "callbackAfterLookup env rem m p st")
  obtain qs st2 where 2: "resumeAll (callbackAfterLookup env rem m) ps st1 = (qs, st2)"
    by (cases "resumeAll (callbackAfterLookup env rem m) ps st1")
  from Cons.prems have "\<not> rejected p" "list_all (\<lambda>p. \<not> rejected p) ps" by simp_all
  with callbackAfterLookup_answered [OF assms, of p env m st] Cons.IH [of st1] 1 2
  show ?case by simp
qed

lemma collectPatches_answered:
  assumes "answered rem"
  shows "\<exists>patches. fst (collectPatches env rem m ns st) = Inr patches"
proof -
  let ?started = "map (\<lambda>n. fst (callbackStart m n st)) ns"
  let ?st1 = "st\<lparr>results := results st @ concat (map (startMiss m st) ns)\<rparr>"
  obtain looked st2 where 2: "resumeAll (callbackAfterLookup env rem m) ?started ?st1 = (looked, st2)"
    by (cases "resumeAll (callbackAfterLookup env rem m) ?started ?st1")
  obtain r3 st3 where 3: "promiseAll (callbackAfterWebhook m) settlesAt looked st2 = (r3, st3)"
    by (cases "promiseAll (callbackAfterWebhook m) settlesAt looked st2")
  have "list_all (\<lambda>p. \<not> rejected p) ?started"
    by (simp add: list_all_iff started_facts)
  from resumeAll_answered [OF assms this, of env m ?st1] 2
  have "list_all (\<lambda>p. \<not> rejected p) looked" by simp
  with promiseAll_callbackAfterWebhook(2) [OF 3] obtain ys where "r3 = Inr ys" by blast
  then show ?thesis
    by (simp add: collectPatches_def resumeAll_callbackStart 2 3)
qed

text \<open>
  What processing a monitor with notifications does, said in terms of its requests and
  records: after the records of the look-ups, one record for each webhook creation that did
  not throw; the requests for the webhooks; and then, if the rewrite is reached, the read of
  the monitor, the record of the old and the new message, and the write. Where no webhook
  creation throws, which is so in a dry run and where the remote side answers each of them,
  the rewrite is reached if there is a patch, and goes as the remote side's answers say.
\<close>

lemma processMonitor_effect:
  assumes "\<not> hasMatch ''@webhook-rootly-'' (message m)"
    and "matchAll ''@pagerduty-'' (message m) = ns" and "ns \<noteq> []"
  shows "\<exists>ended recorded tail.
      results (processMonitor env rem m st)
        = results st @ concat (map (startMiss m st) ns) @ concat (map (rootlyMiss m st) ns)
            @ map (\<lambda>(x, y). appended m x y) ended @ recorded
    \<and> calls (processMonitor env rem m st) = calls st @ postsFor env st ns @ tail
    \<and> sameCaches (processMonitor env rem m st) st
    \<and> set ended \<subseteq> set (patchesFor st ns)
    \<and> list_all (\<lambda>r. old r = None) recorded
    \<and> (tail = [] \<or> tail = [GetMonitor (monitor_id m)]
        \<or> (\<exists>fetched write.
              monitorFetched rem (calls st @ postsFor env st ns @ [GetMonitor (monitor_id m)])
                = Inr (Some fetched)
            \<and> writeRequest (monitor_id m)
                (fetched\<lparr>message := applyPatches (message fetched) (patchesFor st ns)\<rparr>) = Inr write
            \<and> tail = [GetMonitor (monitor_id m), write]))
    \<and> (truthy (DRY_RUN env) \<or> answered rem \<longrightarrow>
          mset ended = mset (patchesFor st ns)
        \<and> (truthy (DRY_RUN env) \<longrightarrow> ended = patchesFor st ns)
        \<and> (patchesFor st ns = [] \<longrightarrow> tail = [] \<and> recorded = [])
        \<and> (patchesFor st ns \<noteq> [] \<longrightarrow>
              (case monitorFetched rem (calls st @ postsFor env st ns @ [GetMonitor (monitor_id m)]) of
                 Inr (Some fetched) \<Rightarrow>
                   recorded =
                     [\<lparr>monitor = fetched\<lparr>message := applyPatches (message fetched) (patchesFor st ns)\<rparr>,
                       old = None, new = None, oldMessage = Some (message fetched),
                       newMessage = Some (applyPatches (message fetched) (patchesFor st ns)),
                       error = None\<rparr>]
                   \<and> tail = GetMonitor (monitor_id m) #
                       (if truthy (DRY_RUN env) then []
                        else (case writeRequest (monitor_id m)
                                (fetched\<lparr>message := applyPatches (message fetched) (patchesFor st ns)\<rparr>) of
                                Inr write \<Rightarrow> [write]
                              | Inl e \<Rightarrow> []))
               | _ \<Rightarrow> recorded = [] \<and> tail = [GetMonitor (monitor_id m)])))"
proof -
  let ?hits = "map (\<lambda>(n, svc, rid). (n, svc)) (concat (map (resolve st) ns))"
  let ?F = "monitorFetched rem (calls st @ postsFor env st ns @ [GetMonitor (monitor_id m)])"
  obtain res st1 where cp: "collectPatches env rem m ns st = (res, st1)"
    by (cases "collectPatches env rem m ns st")
  note e = collectPatches_effect [OF cp]
  from e(3) obtain ended0 where s:
    "set ended0 \<subseteq> set ?hits"
    "results st1 = results st @ concat (map (startMiss m st) ns)
       @ concat (map (rootlyMiss m st) ns) @ map (appendedOf m) ended0"
    "\<forall>patches. res = Inr patches \<longrightarrow> patches = map patchOf ?hits \<and> mset ended0 = mset ?hits"
    "truthy (DRY_RUN env) \<longrightarrow> ended0 = ?hits"
    by blast
  let ?ended = "map patchOf ended0"
  have r1: "results st1 = results st @ concat (map (startMiss m st) ns)
       @ concat (map (rootlyMiss m st) ns) @ map (\<lambda>(x, y). appended m x y) ?ended"
    unfolding s(2) by (simp add: appendedOf_patchOf comp_def)
  have c1: "calls st1 = calls st @ postsFor env st ns"
    using e(1) by (simp add: postsFor_webhookRequest)
  have sub: "set ?ended \<subseteq> set (patchesFor st ns)"
  proof -
    have "patchOf ` set ended0 \<subseteq> patchOf ` set ?hits" using s(1) by (rule image_mono)
    then show ?thesis unfolding patchesFor_patchOf by (simp only: set_map)
  qed
  have ms0: "mset ?ended = mset (patchesFor st ns)" if "mset ended0 = mset ?hits"
    unfolding patchesFor_patchOf using that by (metis mset_map)
  have dry: "truthy (DRY_RUN env) \<longrightarrow> ?ended = patchesFor st ns"
    using s(4) by (auto simp only: patchesFor_patchOf)
  have pf0: "patches = patchesFor st ns" if "res = Inr patches" for patches
    using s(3) that by (simp only: patchesFor_patchOf)
  have ok: "\<exists>patches. res = Inr patches" if "truthy (DRY_RUN env) \<or> answered rem"
    using that e(4) collectPatches_answered [of rem env m ns st] cp by auto
  show ?thesis
  proof (cases "\<exists>patches. res = Inr patches \<and> patches \<noteq> []")
    case False
    then have pm: "processMonitor env rem m st = st1"
      using assms cp by (auto simp: processMonitor_def split: sum.splits)
    have "mset ?ended = mset (patchesFor st ns) \<and> (truthy (DRY_RUN env) \<longrightarrow> ?ended = patchesFor st ns)
        \<and> patchesFor st ns = []"
      if "truthy (DRY_RUN env) \<or> answered rem"
    proof -
      from ok [OF that] obtain patches where p: "res = Inr patches" by blast
      with s(3) have "mset ended0 = mset ?hits" by blast
      then have "mset ?ended = mset (patchesFor st ns)" by (rule ms0)
      moreover from p False have "patches = []" by simp
      with pf0 [OF p] have "patchesFor st ns = []" by simp
      ultimately show ?thesis using dry by blast
    qed
    then show ?thesis
      unfolding pm using r1 c1 e(2) sub
      by (intro exI [of _ ?ended] exI [of _ "[]"]) auto
  next
    case True
    then obtain patches where p: "res = Inr patches" "patches \<noteq> []" by blast
    have pf: "patches = patchesFor st ns" using p(1) by (rule pf0)
    from s(3) p(1) have "mset ended0 = mset ?hits" by blast
    then have ms: "mset ?ended = mset (patchesFor st ns)" by (rule ms0)
    obtain r st2 where u: "updateDatadogMonitor env rem (monitor_id m) patches st1 = (r, st2)"
      by (cases "updateDatadogMonitor env rem (monitor_id m) patches st1")
    have pm: "processMonitor env rem m st = st2"
      using assms p u cp by (simp add: processMonitor_def)
    note ue = updateDatadogMonitor_effect [OF u, unfolded c1 pf append_assoc]
    have sc: "sameCaches st2 st" using ue(1) e(2) by (blast intro: sameCaches_trans)
    show ?thesis
    proof (cases "\<exists>fetched. ?F = Inr (Some fetched)")
      case False
      with ue(2) have t: "results st2 = results st1"
        "calls st2 = calls st @ postsFor env st ns @ [GetMonitor (monitor_id m)]"
        by (auto split: sum.splits option.splits)
      show ?thesis
        unfolding pm
        apply (rule exI [of _ ?ended])
        apply (rule exI [of _ "[]"])
        apply (rule exI [of _ "[GetMonitor (monitor_id m)]"])
        using False t r1 c1 sc sub ms dry p(2) pf
        by (auto split: sum.splits option.splits)
    next
      case True
      then obtain fetched where f: "?F = Inr (Some fetched)" by blast
      let ?patched = "fetched\<lparr>message := applyPatches (message fetched) (patchesFor st ns)\<rparr>"
      let ?rec = "\<lparr>monitor = ?patched, old = None, new = None, oldMessage = Some (message fetched),
                   newMessage = Some (applyPatches (message fetched) (patchesFor st ns)),
                   error = None\<rparr>"
      let ?writes = "if truthy (DRY_RUN env) then []
                     else (case writeRequest (monitor_id m) ?patched of
                             Inr write \<Rightarrow> [write] | Inl e \<Rightarrow> [])"
      from ue(2) f have t: "results st2 = results st1 @ [?rec]"
        "calls st2 = calls st @ postsFor env st ns @ GetMonitor (monitor_id m) # ?writes"
        by simp_all
      have shape: "GetMonitor (monitor_id m) # ?writes = [GetMonitor (monitor_id m)]
          \<or> (\<exists>write. writeRequest (monitor_id m) ?patched = Inr write
                \<and> GetMonitor (monitor_id m) # ?writes = [GetMonitor (monitor_id m), write])"
        by (auto split: sum.splits)
      show ?thesis
        unfolding pm
        apply (rule exI [of _ ?ended])
        apply (rule exI [of _ "[?rec]"])
        apply (rule exI [of _ "GetMonitor (monitor_id m) # ?writes"])
        apply (intro conjI)
              apply (simp add: t r1)
             apply (simp add: t)
            apply (rule sc)
           apply (rule sub)
          apply simp
         apply (use shape f in blast)
        apply (use ms dry p(2) pf f in simp)
        done
    qed
  qed
qed

lemma processMonitor_cases:
  assumes "\<not> hasMatch ''@webhook-rootly-'' (message m)"
    and "matchAll ''@pagerduty-'' (message m) = ns" and "ns \<noteq> []"
  obtains (effect) ended recorded tail where
      "results (processMonitor env rem m st)
        = results st @ concat (map (startMiss m st) ns) @ concat (map (rootlyMiss m st) ns)
            @ map (\<lambda>(x, y). appended m x y) ended @ recorded"
    and "calls (processMonitor env rem m st) = calls st @ postsFor env st ns @ tail"
    and "tail = [] \<or> tail = [GetMonitor (monitor_id m)]
        \<or> (\<exists>fetched write.
              monitorFetched rem (calls st @ postsFor env st ns @ [GetMonitor (monitor_id m)])
                = Inr (Some fetched)
            \<and> writeRequest (monitor_id m)
                (fetched\<lparr>message := applyPatches (message fetched) (patchesFor st ns)\<rparr>) = Inr write
            \<and> tail = [GetMonitor (monitor_id m), write])"
    and "truthy (DRY_RUN env) \<or> answered rem \<Longrightarrow> mset ended = mset (patchesFor st ns)"
    and "truthy (DRY_RUN env) \<or> answered rem \<Longrightarrow> patchesFor st ns = [] \<Longrightarrow>
           tail = [] \<and> recorded = []"
    and "truthy (DRY_RUN env) \<or> answered rem \<Longrightarrow> patchesFor st ns \<noteq> [] \<Longrightarrow>
           (case monitorFetched rem (calls st @ postsFor env st ns @ [GetMonitor (monitor_id m)]) of
              Inr (Some fetched) \<Rightarrow>
                recorded =
                  [\<lparr>monitor = fetched\<lparr>message := applyPatches (message fetched) (patchesFor st ns)\<rparr>,
                    old = None, new = None, oldMessage = Some (message fetched),
                    newMessage = Some (applyPatches (message fetched) (patchesFor st ns)),
                    error = None\<rparr>]
                \<and> tail = GetMonitor (monitor_id m) #
                    (if truthy (DRY_RUN env) then []
                     else (case writeRequest (monitor_id m)
                             (fetched\<lparr>message := applyPatches (message fetched) (patchesFor st ns)\<rparr>) of
                             Inr write \<Rightarrow> [write]
                           | Inl e \<Rightarrow> []))
            | _ \<Rightarrow> recorded = [] \<and> tail = [GetMonitor (monitor_id m)])"
proof -
  from processMonitor_effect [OF assms, of env rem st] obtain ended recorded tail where e:
    "results (processMonitor env rem m st)
        = results st @ concat (map (startMiss m st) ns) @ concat (map (rootlyMiss m st) ns)
            @ map (\<lambda>(x, y). appended m x y) ended @ recorded
    \<and> calls (processMonitor env rem m st) = calls st @ postsFor env st ns @ tail
    \<and> sameCaches (processMonitor env rem m st) st
    \<and> set ended \<subseteq> set (patchesFor st ns)
    \<and> list_all (\<lambda>r. old r = None) recorded
    \<and> (tail = [] \<or> tail = [GetMonitor (monitor_id m)]
        \<or> (\<exists>fetched write.
              monitorFetched rem (calls st @ postsFor env st ns @ [GetMonitor (monitor_id m)])
                = Inr (Some fetched)
            \<and> writeRequest (monitor_id m)
                (fetched\<lparr>message := applyPatches (message fetched) (patchesFor st ns)\<rparr>) = Inr write
            \<and> tail = [GetMonitor (monitor_id m), write]))
    \<and> (truthy (DRY_RUN env) \<or> answered rem \<longrightarrow>
          mset ended = mset (patchesFor st ns)
        \<and> (truthy (DRY_RUN env) \<longrightarrow> ended = patchesFor st ns)
        \<and> (patchesFor st ns = [] \<longrightarrow> tail = [] \<and> recorded = [])
        \<and> (patchesFor st ns \<noteq> [] \<longrightarrow>
              (case monitorFetched rem (calls st @ postsFor env st ns @ [GetMonitor (monitor_id m)]) of
                 Inr (Some fetched) \<Rightarrow>
                   recorded =
                     [\<lparr>monitor = fetched\<lparr>message := applyPatches (message fetched) (patchesFor st ns)\<rparr>,
                       old = None, new = None, oldMessage = Some (message fetched),
                       newMessage = Some (applyPatches (message fetched) (patchesFor st ns)),
                       error = None\<rparr>]
                   \<and> tail = GetMonitor (monitor_id m) #
                       (if truthy (DRY_RUN env) then []
                        else (case writeRequest (monitor_id m)
                                (fetched\<lparr>message := applyPatches (message fetched) (patchesFor st ns)\<rparr>) of
                                Inr write \<Rightarrow> [write]
                              | Inl e \<Rightarrow> []))
               | _ \<Rightarrow> recorded = [] \<and> tail = [GetMonitor (monitor_id m)])))"
    by blast
  show thesis
    by (rule that [of ended recorded tail]) (use e in blast)+
qed

section \<open>A notification without a PagerDuty service\<close>





lemma resolve_found:
  assumes "getPagerdutyServiceId st (serviceNameOf x) = Some pid" "pid \<noteq> []"
    "fetchRootlyServiceId st pid = Some rid" "rid \<noteq> []"
  shows "resolve st x = [(x, serviceNameOf x, rid)]"
  using assms by (simp add: resolve_def)










section \<open>Where a patch lands\<close>

lemma getSubstitution_plain:
  "CHR ''$'' \<notin> set replacement \<Longrightarrow> getSubstitution matched preceding following replacement = replacement"
  by (induction matched preceding following replacement rule: getSubstitution.induct) auto

lemma replaceFrom_nonempty:
  "s \<noteq> [] \<Longrightarrow> replaceFrom preceding pattern replacement s =
     (if take (length pattern) s = pattern
      then getSubstitution pattern preceding (drop (length pattern) s) replacement
             @ drop (length pattern) s
      else hd s # replaceFrom (preceding @ [hd s]) pattern replacement (tl s))"
  by (cases s) simp_all

lemma replaceFrom_first:
  assumes "\<forall>p<length A. \<not> occursAt pattern (A @ pattern @ B) p" and "pattern \<noteq> []"
  shows "replaceFrom preceding pattern replacement (A @ pattern @ B)
       = A @ getSubstitution pattern (preceding @ A) B replacement @ B"
  using assms(1)
proof (induction A arbitrary: preceding)
  case Nil
  from assms(2) have "pattern @ B \<noteq> []" by simp
  from replaceFrom_nonempty [OF this] show ?case by simp
next
  case (Cons a A)
  from Cons.prems have 0: "\<not> occursAt pattern ((a # A) @ pattern @ B) 0" by blast
  have rest: "\<forall>p<length A. \<not> occursAt pattern (A @ pattern @ B) p"
  proof (intro allI impI)
    fix p assume "p < length A"
    then have "\<not> occursAt pattern ((a # A) @ pattern @ B) (Suc p)" using Cons.prems by simp
    then show "\<not> occursAt pattern (A @ pattern @ B) p" by (simp add: occursAt_def)
  qed
  from 0 have "take (length pattern) (a # A @ pattern @ B) \<noteq> pattern"
    by (simp add: occursAt_def)
  then have "replaceFrom preceding pattern replacement ((a # A) @ pattern @ B)
      = a # replaceFrom (preceding @ [a]) pattern replacement (A @ pattern @ B)"
    by simp
  with Cons.IH [OF rest, of "preceding @ [a]"] show ?case by simp
qed

lemma replace_first:
  assumes "\<forall>p<length A. \<not> occursAt pattern (A @ pattern @ B) p" and "pattern \<noteq> []"
    and "CHR ''$'' \<notin> set replacement"
  shows "replace (A @ pattern @ B) pattern replacement = A @ replacement @ B"
  using replaceFrom_first [OF assms(1,2), of "[]" replacement] assms(3)
  by (simp add: replace_def getSubstitution_plain)

lemma occursAt_before:
  assumes "p < length A"
  shows "occursAt pattern (A @ pattern @ B) p = occursAt pattern (A @ pattern @ C) p"
proof -
  have "take (length pattern) (drop p ((A @ pattern) @ X)) = take (length pattern) (drop p (A @ pattern))" for X
  proof -
    have "drop p ((A @ pattern) @ X) = drop p (A @ pattern) @ X"
      using assms by simp
    moreover have "length pattern \<le> length (drop p (A @ pattern))"
      using assms by simp
    ultimately show ?thesis by simp
  qed
  from this [of B] this [of C] show ?thesis unfolding occursAt_def by (simp only: append_assoc)
qed

lemma matchAll_Cons:
  assumes "matchAll literal s = x # xs"
  shows "\<exists>A B. s = A @ x @ B \<and> matchAll literal B = xs
          \<and> (\<forall>p<length A. \<not> matchesAt literal (drop p s))
          \<and> (\<exists>body. x = literal @ body \<and> body \<noteq> [] \<and> list_all (\<lambda>d. \<not> isSpace d) body)"
  using assms
proof (induction s)
  case Nil
  then show ?case by simp
next
  case (Cons c cs)
  show ?case
  proof (cases "matchesAt literal (c # cs)")
    case True
    let ?rest = "drop (length literal) (c # cs)"
    let ?body = "takeWhile (\<lambda>d. \<not> isSpace d) ?rest"
    from True obtain d ds where r: "?rest = d # ds" "\<not> isSpace d"
      by (auto simp: matchesAt_def split: list.splits)
    from True have "take (length literal) (c # cs) = literal" by (simp add: matchesAt_def)
    then have s: "c # cs = literal @ ?rest" by (metis append_take_drop_id)
    from Cons.prems True have x: "x = literal @ ?body"
      and xs: "xs = matchAll literal (dropWhile (\<lambda>d. \<not> isSpace d) ?rest)" by simp_all
    have "c # cs = [] @ x @ dropWhile (\<lambda>d. \<not> isSpace d) ?rest"
      unfolding x using s by simp
    moreover have "?body \<noteq> []" unfolding r using r(2) by simp
    moreover have "list_all (\<lambda>d. \<not> isSpace d) ?body" by (rule list_all_takeWhile)
    ultimately show ?thesis using x xs
      by (intro exI [of _ "[]"] exI [of _ "dropWhile (\<lambda>d. \<not> isSpace d) ?rest"]) auto
  next
    case False
    with Cons.prems have "matchAll literal cs = x # xs" by simp
    from Cons.IH [OF this] obtain A B where ih: "cs = A @ x @ B" "matchAll literal B = xs"
      "\<forall>p<length A. \<not> matchesAt literal (drop p cs)"
      "\<exists>body. x = literal @ body \<and> body \<noteq> [] \<and> list_all (\<lambda>d. \<not> isSpace d) body"
      by blast
    have "\<forall>p<length (c # A). \<not> matchesAt literal (drop p (c # cs))"
    proof (intro allI impI)
      fix p assume p: "p < length (c # A)"
      show "\<not> matchesAt literal (drop p (c # cs))"
      proof (cases p)
        case 0
        with False show ?thesis by simp
      next
        case (Suc q)
        with p ih(3) show ?thesis by simp
      qed
    qed
    moreover have "c # cs = (c # A) @ x @ B" using ih(1) by simp
    ultimately show ?thesis using ih(2,4) by blast
  qed
qed

lemma match_occurs:
  assumes "occursAt (literal @ body) s p" and "body \<noteq> []" and "list_all (\<lambda>d. \<not> isSpace d) body"
  shows "matchesAt literal (drop p s)"
proof -
  from assms(1) have "drop p s = (literal @ body) @ drop (length (literal @ body)) (drop p s)"
    unfolding occursAt_def by (metis append_take_drop_id)
  then obtain t where t: "drop p s = literal @ body @ t" by (metis append.assoc)
  from assms(2,3) obtain d ds where "body = d # ds" "\<not> isSpace d" by (cases body) auto
  with t show ?thesis by (simp add: matchesAt_def)
qed

lemma matchAll_first_occurrence:
  assumes "matchAll literal s = x # xs"
  shows "\<exists>A B. s = A @ x @ B \<and> matchAll literal B = xs \<and> x \<noteq> []
          \<and> (\<forall>p<length A. \<not> occursAt x s p)"
proof -
  from matchAll_Cons [OF assms] obtain A B body where m: "s = A @ x @ B" "matchAll literal B = xs"
    "\<forall>p<length A. \<not> matchesAt literal (drop p s)"
    "x = literal @ body" "body \<noteq> []" "list_all (\<lambda>d. \<not> isSpace d) body"
    by blast
  have "\<forall>p<length A. \<not> occursAt x s p"
    using m(3) match_occurs [OF _ m(5,6), of literal s] unfolding m(4) by blast
  with m show ?thesis by blast
qed

lemma webhook_mention_plain:
  "CHR ''$'' \<notin> set (''@webhook-rootly-'' @ normalizedServiceName serviceName)"
proof -
  have "c \<noteq> CHR ''$''" if "c \<in> set (normalizedServiceName serviceName)" for c
    using that normalized_all_lower [of serviceName] lower_not_dollar
    by (auto simp: list_all_iff)
  then show ?thesis by auto
qed

lemma same_mention_same_patch:
  assumes "getPagerdutyServiceId st (serviceNameOf n) = Some pid" and "pid \<noteq> []"
    and "fetchRootlyServiceId st pid = Some rid" and "rid \<noteq> []"
    and "collectPatches env rem m [n, n] st = (Inr patches, st')"
  shows "patches = [(n, ''@webhook-rootly-'' @ normalizedServiceName (serviceNameOf n)),
                    (n, ''@webhook-rootly-'' @ normalizedServiceName (serviceNameOf n))]"
proof -
  have r: "resolve st n = [(n, serviceNameOf n, rid)]"
    using assms(1-4) by (rule resolve_found)
  from collectPatches_effect(3) [OF assms(5)]
  have "patches = map patchOf (map (\<lambda>(n, svc, rid). (n, svc)) (concat (map (resolve st) [n, n])))"
    by blast
  then show ?thesis by (simp add: r patchOf_def)
qed

subsection \<open>The same notification twice\<close>

text \<open>
  Two patches for one notification: where the notification stands first among the
  notifications of a message and has no dollar sign, both patches land behind its first
  occurrence. The new notification then stands there twice, each after a space, and the rest
  of the message, any later occurrence of the notification included, is as it was.
\<close>

lemma repeated_mention_patched:
  assumes "matchAll ''@pagerduty-'' msg = n # rest"
    and "CHR ''$'' \<notin> set n"
  shows "\<exists>A B. msg = A @ n @ B
           \<and> (\<forall>p<length A. \<not> occursAt n msg p)
           \<and> applyPatches msg
                [(n, ''@webhook-rootly-'' @ normalizedServiceName serviceName),
                 (n, ''@webhook-rootly-'' @ normalizedServiceName serviceName)]
               = A @ n @ '' '' @ (''@webhook-rootly-'' @ normalizedServiceName serviceName)
                   @ '' '' @ (''@webhook-rootly-'' @ normalizedServiceName serviceName) @ B"
proof -
  let ?w = "''@webhook-rootly-'' @ normalizedServiceName serviceName"
  from matchAll_first_occurrence [OF assms(1)] obtain A B where
    a: "msg = A @ n @ B" "n \<noteq> []" "\<forall>p<length A. \<not> occursAt n msg p"
    by blast
  have plain: "CHR ''$'' \<notin> set (n @ '' '' @ ?w)"
    using assms(2) webhook_mention_plain [of serviceName] by simp
  have first: "\<forall>p<length A. \<not> occursAt n (A @ n @ X) p" for X
    using a(3) occursAt_before [of _ A n B X] unfolding a(1) by blast
  have 1: "replace (A @ n @ B) n (n @ '' '' @ ?w) = A @ (n @ '' '' @ ?w) @ B"
    using first [of B] a(2) plain by (rule replace_first)
  have 2: "replace (A @ n @ ('' '' @ ?w @ B)) n (n @ '' '' @ ?w)
      = A @ (n @ '' '' @ ?w) @ ('' '' @ ?w @ B)"
    using first [of "'' '' @ ?w @ B"] a(2) plain by (rule replace_first)
  have "applyPatches msg [(n, ?w), (n, ?w)] = A @ n @ '' '' @ ?w @ '' '' @ ?w @ B"
    unfolding applyPatches_def a(1) using 1 2 by simp
  with a(1,3) show ?thesis
    by (intro exI [of _ A] exI [of _ B]) simp
qed

text \<open>
  Claim C10 says that where a monitor's message has the same notification at two places,
  both resolved, the callbacks return two identical patches, and applying them puts the new
  notification twice right behind the first occurrence of the old one and leaves the second
  occurrence as it was. The code does return the two identical patches. It misses a case in
  applying them: the replacement text of a patch begins with the old notification, which is
  meant to be put back unchanged, and \<^verbatim>\<open>replace\<close> reads a dollar sign in it as a template.
  With the notification \<^verbatim>\<open>@pagerduty-a$$\<close> twice in the message (PagerDuty has a service
  named \<^verbatim>\<open>a!\<close>, of the same normalized name \<^verbatim>\<open>a_\<close>), the claim asks for
  \<^verbatim>\<open>@pagerduty-a$$ @webhook-rootly-a_ @webhook-rootly-a_ @pagerduty-a$$\<close>. The first patch
  writes \<^verbatim>\<open>@pagerduty-a$\<close> in place of the first occurrence instead, so the second patch
  lands on the second occurrence: each occurrence is changed and gets the new notification
  once, and the one write of the monitor carries that message. The theorem runs the code on
  this input.
\<close>

theorem dollar_mention_rewritten_differently:
  "matchAll ''@pagerduty-'' (message (monitorWith ''@pagerduty-a$$ @pagerduty-a$$''))
     = [''@pagerduty-a$$'', ''@pagerduty-a$$'']
   \<and> fst (collectPatches env_normal (world (monitorWith ''@pagerduty-a$$ @pagerduty-a$$'') None)
            (monitorWith ''@pagerduty-a$$ @pagerduty-a$$'')
            [''@pagerduty-a$$'', ''@pagerduty-a$$''] cached)
     = Inr [(''@pagerduty-a$$'', ''@webhook-rootly-a_''), (''@pagerduty-a$$'', ''@webhook-rootly-a_'')]
   \<and> calls (processMonitor env_normal (world (monitorWith ''@pagerduty-a$$ @pagerduty-a$$'') None)
            (monitorWith ''@pagerduty-a$$ @pagerduty-a$$'') cached)
     = [PostWebhook ''rootly-a_'' ''R4'' (Some ''set''),
        PostWebhook ''rootly-a_'' ''R4'' (Some ''set''),
        GetMonitor ''7'',
        PutMonitor ''7'' (monitorWith ''@pagerduty-a$ @webhook-rootly-a_ @pagerduty-a$ @webhook-rootly-a_'')]
   \<and> applyPatches ''@pagerduty-a$$ @pagerduty-a$$''
        [(''@pagerduty-a$$'', ''@webhook-rootly-a_''), (''@pagerduty-a$$'', ''@webhook-rootly-a_'')]
     = ''@pagerduty-a$ @webhook-rootly-a_ @pagerduty-a$ @webhook-rootly-a_''
   \<and> applyPatches ''@pagerduty-a$$ @pagerduty-a$$''
        [(''@pagerduty-a$$'', ''@webhook-rootly-a_''), (''@pagerduty-a$$'', ''@webhook-rootly-a_'')]
     \<noteq> ''@pagerduty-a$$ @webhook-rootly-a_ @webhook-rootly-a_ @pagerduty-a$$''"
  by code_simp

subsection \<open>Two different notifications\<close>

text \<open>
  The second patch lands on its own notification when the text of the second notification
  does not occur inside the first one: before the first notification and between the two
  there is no match of the pattern, the inserted space and the inserted webhook notification
  cannot begin one, and an occurrence that begins inside the first notification would have
  to run over the space behind it.
\<close>

lemma clear_append:
  assumes "clear pattern X1 (X2 @ Y)" and "clear pattern X2 Y"
  shows "clear pattern (X1 @ X2) Y"
  unfolding clear_def
proof (intro allI impI)
  fix p assume p: "p < length (X1 @ X2)"
  show "\<not> occursAt pattern ((X1 @ X2) @ Y) p"
  proof (cases "p < length X1")
    case True
    with assms(1) show ?thesis by (simp add: clear_def)
  next
    case False
    with p have q: "p - length X1 < length X2" by simp
    have d: "drop p ((X1 @ X2) @ Y) = drop (p - length X1) (X2 @ Y)"
      using False by simp
    from assms(2) q have "\<not> occursAt pattern (X2 @ Y) (p - length X1)"
      unfolding clear_def by blast
    then show ?thesis unfolding occursAt_def d .
  qed
qed

lemma matchesAt_prefix:
  assumes "length literal < length Y"
  shows "matchesAt literal (Y @ X) = matchesAt literal Y"
proof -
  from assms have "drop (length literal) Y \<noteq> []" by simp
  then obtain d ds where d: "drop (length literal) Y = d # ds" by (cases "drop (length literal) Y") auto
  have e: "drop (length literal) (Y @ X) = d # ds @ X" using assms d by simp
  have t: "take (length literal) (Y @ X) = take (length literal) Y" using assms by simp
  show ?thesis unfolding matchesAt_def e t d by simp
qed

lemma clear_before_match:
  assumes "\<forall>p<length A. \<not> matchesAt literal (drop p (A @ (literal @ body) @ R))"
    and "body \<noteq> []" and "body2 \<noteq> []" and "list_all (\<lambda>d. \<not> isSpace d) body2"
  shows "clear (literal @ body2) A ((literal @ body) @ X)"
  unfolding clear_def
proof (intro allI impI notI)
  fix p assume p: "p < length A" and o: "occursAt (literal @ body2) (A @ (literal @ body) @ X) p"
  from match_occurs [OF o assms(3,4)]
  have "matchesAt literal (drop p (A @ (literal @ body) @ X))" .
  then have "matchesAt literal ((drop p A @ literal @ body) @ X)" using p by simp
  moreover have l: "length literal < length (drop p A @ literal @ body)" using assms(2) by simp
  ultimately have "matchesAt literal (drop p A @ literal @ body)"
    by (simp only: matchesAt_prefix [OF l])
  then have "matchesAt literal ((drop p A @ literal @ body) @ R)"
    by (simp only: matchesAt_prefix [OF l])
  then have "matchesAt literal (drop p (A @ (literal @ body) @ R))" using p by simp
  with assms(1) p show False by blast
qed

lemma clear_inside:
  assumes "\<forall>q. \<not> occursAt n2 n1 q" and "list_all (\<lambda>d. \<not> isSpace d) n2"
  shows "clear n2 n1 ('' '' @ X)"
  unfolding clear_def
proof (intro allI impI notI)
  fix p assume p: "p < length n1" and o: "occursAt n2 (n1 @ '' '' @ X) p"
  let ?Y = "drop p n1"
  from o p have t: "take (length n2) (?Y @ '' '' @ X) = n2" by (simp add: occursAt_def)
  show False
  proof (cases "length n2 \<le> length ?Y")
    case True
    with t have "take (length n2) ?Y = n2" by simp
    with assms(1) show False by (simp add: occursAt_def)
  next
    case False
    then obtain j where j: "length n2 - length ?Y = Suc j" by (cases "length n2 - length ?Y") auto
    from False have "take (length n2) (?Y @ '' '' @ X) = ?Y @ CHR '' '' # take j X"
      using j by simp
    with t have "CHR '' '' \<in> set n2" by (metis in_set_conv_decomp)
    moreover have "isSpace (CHR '' '')" by (simp add: isSpace_def)
    ultimately show False using assms(2) by (auto simp: list_all_iff)
  qed
qed

lemma clear_head:
  assumes "hd n \<notin> set X" and "n \<noteq> []"
  shows "clear n X Y"
  unfolding clear_def
proof (intro allI impI notI)
  fix p assume p: "p < length X" and o: "occursAt n (X @ Y) p"
  from p obtain x xs where d: "drop p X = x # xs" by (cases "drop p X") auto
  then have "x \<in> set X" by (metis in_set_dropD list.set_intros(1))
  from o p d have "take (length n) (x # xs @ Y) = n" by (simp add: occursAt_def)
  with assms(2) have "hd n = x" by (cases n) auto
  with \<open>x \<in> set X\<close> assms(1) show False by simp
qed

lemma lower_not_at: "isLowerNameChar c \<Longrightarrow> c \<noteq> CHR ''@''"
  by (auto simp: isLowerNameChar_code Let_def)

lemma clear_webhook:
  assumes "list_all isLowerNameChar name"
  shows "clear (''@pagerduty-'' @ body) (''@webhook-rootly-'' @ name) Y"
proof -
  have 1: "clear (''@pagerduty-'' @ body) ''@'' ((''webhook-rootly-'' @ name) @ Y)"
    by (simp add: clear_def occursAt_def)
  have "c \<noteq> CHR ''@''" if "c \<in> set name" for c
    using that assms lower_not_at by (auto simp: list_all_iff)
  then have "hd (''@pagerduty-'' @ body) \<notin> set (''webhook-rootly-'' @ name)" by auto
  then have 2: "clear (''@pagerduty-'' @ body) (''webhook-rootly-'' @ name) Y"
    by (rule clear_head) simp
  from clear_append [OF 1 2] show ?thesis by simp
qed

lemma clear_space: "clear (''@pagerduty-'' @ body) '' '' Y"
  by (rule clear_head) simp_all

lemma clear_all:
  assumes "clear n A (n1 @ S @ W @ B @ n @ C)" and "clear n n1 (S @ W @ B @ n @ C)"
    and "clear n S (W @ B @ n @ C)" and "clear n W (B @ n @ C)" and "clear n B (n @ C)"
  shows "clear n (A @ n1 @ S @ W @ B) (n @ C)"
  using assms by (intro clear_append) simp_all

lemma distinct_mentions_patched:
  assumes "matchAll ''@pagerduty-'' msg = [n1, n2]"
    and "CHR ''$'' \<notin> set n1" and "CHR ''$'' \<notin> set n2"
    and "\<forall>q. \<not> occursAt n2 n1 q"
  shows "\<exists>A B C. msg = A @ n1 @ B @ n2 @ C
          \<and> applyPatches msg
              [(n1, ''@webhook-rootly-'' @ normalizedServiceName s1),
               (n2, ''@webhook-rootly-'' @ normalizedServiceName s2)]
            = A @ n1 @ '' '' @ (''@webhook-rootly-'' @ normalizedServiceName s1) @ B
                @ n2 @ '' '' @ (''@webhook-rootly-'' @ normalizedServiceName s2) @ C"
proof -
  define w1 where "w1 = ''@webhook-rootly-'' @ normalizedServiceName s1"
  define w2 where "w2 = ''@webhook-rootly-'' @ normalizedServiceName s2"
  define S where "S = '' ''"
  from matchAll_Cons [OF assms(1)] obtain A R b1 where
    a: "msg = A @ n1 @ R" "matchAll ''@pagerduty-'' R = [n2]"
       "\<forall>p<length A. \<not> matchesAt ''@pagerduty-'' (drop p msg)"
       "n1 = ''@pagerduty-'' @ b1" "b1 \<noteq> []" "list_all (\<lambda>d. \<not> isSpace d) b1"
    by blast
  from matchAll_Cons [OF a(2)] obtain B C b2 where
    b: "R = B @ n2 @ C"
       "\<forall>p<length B. \<not> matchesAt ''@pagerduty-'' (drop p R)"
       "n2 = ''@pagerduty-'' @ b2" "b2 \<noteq> []" "list_all (\<lambda>d. \<not> isSpace d) b2"
    by blast
  have n1: "n1 \<noteq> []" and n2: "n2 \<noteq> []" using a(4) b(3) by simp_all
  have p1: "CHR ''$'' \<notin> set (n1 @ S @ w1)"
    using assms(2) webhook_mention_plain [of s1] by (simp add: w1_def S_def)
  have p2: "CHR ''$'' \<notin> set (n2 @ S @ w2)"
    using assms(3) webhook_mention_plain [of s2] by (simp add: w2_def S_def)
  have "\<forall>p<length A. \<not> occursAt n1 (A @ n1 @ R) p"
    using a(3) match_occurs [OF _ a(5,6), of "''@pagerduty-''" msg] unfolding a(4) a(1) by blast
  then have 1: "replace (A @ n1 @ R) n1 (n1 @ S @ w1) = A @ (n1 @ S @ w1) @ R"
    using n1 p1 by (rule replace_first)
  have space: "list_all (\<lambda>d. \<not> isSpace d) n2"
    unfolding b(3) using b(5) by (simp add: isSpace_def)
  have c1: "clear n2 A (n1 @ S @ w1 @ B @ n2 @ C)"
    unfolding a(4) b(3)
    using clear_before_match [of A "''@pagerduty-''" b1 R b2 "S @ w1 @ B @ (''@pagerduty-'' @ b2) @ C"]
      a(3,5) b(4,5) unfolding a(1) a(4) by simp
  have c2: "clear n2 n1 (S @ w1 @ B @ n2 @ C)"
    unfolding S_def using assms(4) space by (rule clear_inside)
  have c3: "clear n2 S (w1 @ B @ n2 @ C)"
    unfolding S_def b(3) by (rule clear_space)
  have c4: "clear n2 w1 (B @ n2 @ C)"
    unfolding w1_def b(3) using normalized_all_lower by (rule clear_webhook)
  have c5: "clear n2 B (n2 @ C)"
    unfolding clear_def
    using b(2) match_occurs [OF _ b(4,5), of "''@pagerduty-''" R] unfolding b(3) b(1) by blast
  from clear_all [OF c1 c2 c3 c4 c5]
  have "\<forall>p<length (A @ n1 @ S @ w1 @ B). \<not> occursAt n2 ((A @ n1 @ S @ w1 @ B) @ n2 @ C) p"
    by (simp only: clear_def)
  then have 2: "replace ((A @ n1 @ S @ w1 @ B) @ n2 @ C) n2 (n2 @ S @ w2)
      = (A @ n1 @ S @ w1 @ B) @ (n2 @ S @ w2) @ C"
    using n2 p2 by (rule replace_first)
  have "applyPatches msg [(n1, w1), (n2, w2)] = A @ n1 @ S @ w1 @ B @ n2 @ S @ w2 @ C"
    unfolding applyPatches_def a(1) using 1 2 by (simp add: b(1) S_def)
  moreover have "msg = A @ n1 @ B @ n2 @ C" using a(1) b(1) by simp
  ultimately show ?thesis
    unfolding w1_def w2_def S_def by (intro exI [of _ A] exI [of _ B] exI [of _ C]) simp
qed

subsection \<open>Two notifications, one a prefix of the other\<close>

text \<open>
  Claim C1 says that for a monitor with two distinct notifications, both resolved, the one
  monitor write carries a message in which each new notification stands right after its own
  old notification. The code misses a case: a patch is applied with \<^verbatim>\<open>replace\<close>, which finds
  the first place where the old notification's text stands, and that place need not be the
  notification. With the services \<^verbatim>\<open>db-replica\<close> and \<^verbatim>\<open>db\<close> and the message
  \<^verbatim>\<open>@pagerduty-db-replica @pagerduty-db\<close>, the claim asks for
  \<^verbatim>\<open>@pagerduty-db-replica @webhook-rootly-db-replica @pagerduty-db @webhook-rootly-db\<close>.
  The second patch lands inside the first notification instead: the message written no longer
  notifies \<^verbatim>\<open>@pagerduty-db-replica\<close>, and never notifies \<^verbatim>\<open>@webhook-rootly-db\<close>. The theorem
  runs the code on this input: it sends one write, as claimed, with that message, and records
  two appended notifications, as claimed. Where the second notification's text does not
  occur inside the first, and neither has a dollar sign, the message is the claimed one
  (lemma \<open>distinct_mentions_patched\<close>).
\<close>

theorem prefix_mention_misplaced:
  "matchAll ''@pagerduty-'' ''@pagerduty-db-replica @pagerduty-db''
     = [''@pagerduty-db-replica'', ''@pagerduty-db'']
   \<and> calls (processMonitor env_normal
        (world (monitorWith ''@pagerduty-db-replica @pagerduty-db'') None)
        (monitorWith ''@pagerduty-db-replica @pagerduty-db'') cached)
     = [PostWebhook ''rootly-db-replica'' ''R3'' (Some ''set''),
        PostWebhook ''rootly-db'' ''R2'' (Some ''set''),
        GetMonitor ''7'',
        PutMonitor ''7'' (monitorWith
          ''@pagerduty-db @webhook-rootly-db-replica @webhook-rootly-db-replica @pagerduty-db'')]
   \<and> length (filter (\<lambda>r. new r \<noteq> None \<and> error r = None)
        (results (processMonitor env_normal
           (world (monitorWith ''@pagerduty-db-replica @pagerduty-db'') None)
           (monitorWith ''@pagerduty-db-replica @pagerduty-db'') cached))) = 2"
  by code_simp

section \<open>A webhook creation that fails\<close>

text \<open>
  Where the remote side answers every webhook creation, be it with "Webhook already exists" or
  with any other list of errors, no callback is rejected: the patches of all resolved
  notifications are collected, and if there is one, the monitor is read again for the rewrite.
\<close>

lemma answered_webhook_rewrite_proceeds:
  assumes "answered rem"
    and "\<not> hasMatch ''@webhook-rootly-'' (message m)"
    and "patchesFor st (matchAll ''@pagerduty-'' (message m)) \<noteq> []"
  shows "\<exists>tail. calls (processMonitor env rem m st)
           = calls st @ postsFor env st (matchAll ''@pagerduty-'' (message m))
               @ GetMonitor (monitor_id m) # tail"
proof -
  let ?ns = "matchAll ''@pagerduty-'' (message m)"
  from assms(3) have ne: "?ns \<noteq> []" by (auto simp: patchesFor_def resolved_def)
  show ?thesis
  proof (rule processMonitor_cases [OF assms(2) refl ne, of env rem st], goal_cases)
    case (1 ended recorded tail)
    note effect = this
    note c = effect(6) [OF disjI2 [OF assms(1)] assms(3)]
    have "\<exists>rest. tail = GetMonitor (monitor_id m) # rest"
    proof (cases "monitorFetched rem (calls st @ postsFor env st ?ns @ [GetMonitor (monitor_id m)])")
      case (Inl failure)
      with c show ?thesis by simp
    next
      case (Inr found)
      with c show ?thesis by (cases found) simp_all
    qed
    with effect(2) show ?thesis by auto
  qed
qed

text \<open>
  Claim C6 says that a failed webhook creation never aborts the rewrite of the monitor: an
  answer "Webhook already exists" counts as success, any other failure is logged and
  swallowed. The first half holds, as the second equation shows. The second half fails where
  the request gets no response at all, such as on the timeout that the script configures: the
  handler reads \<^verbatim>\<open>error.response.data\<close> of a rejection that has no \<^verbatim>\<open>response\<close>, throws, and
  the \<^verbatim>\<open>catch\<close> of \<^verbatim>\<open>processMonitor\<close> ends the monitor's processing. The monitor is neither
  read again nor written, and nothing is recorded. The theorem runs the code on both inputs.
\<close>

theorem webhook_timeout_aborts_rewrite:
  "processMonitor env_normal (world (monitorWith ''alert @pagerduty-checkout is firing'') (Some NoResponse))
     (monitorWith ''alert @pagerduty-checkout is firing'') cached
     = cached\<lparr>calls := [PostWebhook ''rootly-checkout'' ''R1'' (Some ''set'')]\<rparr>
   \<and> calls (processMonitor env_normal
        (world (monitorWith ''alert @pagerduty-checkout is firing'')
           (Some (ErrorResponse (Some [''Webhook already exists'']))))
        (monitorWith ''alert @pagerduty-checkout is firing'') cached)
     = [PostWebhook ''rootly-checkout'' ''R1'' (Some ''set''),
        GetMonitor ''7'',
        PutMonitor ''7'' (monitorWith ''alert @pagerduty-checkout @webhook-rootly-checkout is firing'')]"
  by code_simp

section \<open>The dry run\<close>

text \<open>
  With \<^verbatim>\<open>DRY_RUN\<close> set, processing a monitor sends no write: no webhook creation, no PUT of a
  monitor, no PATCH of a synthetics test. This holds for every monitor and every remote side.
\<close>

lemma dry_run_sends_no_write:
  assumes "truthy (DRY_RUN env)"
  shows "\<exists>issued. calls (processMonitor env rem m st) = calls st @ issued
           \<and> list_all (\<lambda>c. \<not> isWrite c) issued"
proof (cases "hasMatch ''@webhook-rootly-'' (message m) \<or> matchAll ''@pagerduty-'' (message m) = []")
  case True
  then have "calls (processMonitor env rem m st) = calls st"
    by (auto simp: processMonitor_def push_def)
  then show ?thesis by simp
next
  case False
  let ?ns = "matchAll ''@pagerduty-'' (message m)"
  from False have f: "\<not> hasMatch ''@webhook-rootly-'' (message m)" "?ns \<noteq> []" by simp_all
  show ?thesis
  proof (rule processMonitor_cases [OF f(1) refl f(2), of env rem st], goal_cases)
    case (1 ended recorded tail)
    note effect = this
    have "tail = [] \<or> tail = [GetMonitor (monitor_id m)]"
    proof (cases "patchesFor st ?ns = []")
      case True
      with effect(5) [OF disjI1 [OF assms]] show ?thesis by simp
    next
      case False
      note c = effect(6) [OF disjI1 [OF assms] False]
      show ?thesis
      proof (cases "monitorFetched rem (calls st @ postsFor env st ?ns @ [GetMonitor (monitor_id m)])")
        case (Inl failure)
        with c show ?thesis by simp
      next
        case (Inr found)
        with c assms show ?thesis by (cases found) simp_all
      qed
    qed
    then have "list_all (\<lambda>c. \<not> isWrite c) tail"
      by (auto simp: isWrite_def)
    moreover have "postsFor env st ?ns = []" using assms by (simp add: postsFor_def)
    ultimately show ?thesis using effect(2) by simp
  qed
qed

text \<open>
  Where the remote side answers every webhook creation, and reads a monitor back the same
  whatever was sent before, a dry run leaves the same records as a run in any other
  environment. They are the same as a multiset: in a run that is not dry, the records of the
  appended notifications stand in the order in which the replies to the webhook creations
  arrive.
\<close>

lemma dry_run_same_records:
  assumes dry: "truthy (DRY_RUN dry)"
    and answered: "answered rem"
    and same: "\<forall>sent sent'. monitorFetched rem sent = monitorFetched rem sent'"
  shows "mset (results (processMonitor dry rem m st)) = mset (results (processMonitor env rem m st))"
proof (cases "hasMatch ''@webhook-rootly-'' (message m) \<or> matchAll ''@pagerduty-'' (message m) = []")
  case True
  then show ?thesis by (auto simp: processMonitor_def)
next
  case False
  let ?ns = "matchAll ''@pagerduty-'' (message m)"
  let ?F = "\<lambda>e. monitorFetched rem (calls st @ postsFor e st ?ns @ [GetMonitor (monitor_id m)])"
  let ?rec = "\<lambda>e. if patchesFor st ?ns = [] then []
      else (case ?F e of
              Inr (Some fetched) \<Rightarrow>
                [\<lparr>monitor = fetched\<lparr>message := applyPatches (message fetched) (patchesFor st ?ns)\<rparr>,
                  old = None, new = None, oldMessage = Some (message fetched),
                  newMessage = Some (applyPatches (message fetched) (patchesFor st ?ns)),
                  error = None\<rparr>]
            | _ \<Rightarrow> [])"
  have records: "\<exists>ended. mset ended = mset (patchesFor st ?ns) \<and>
      results (processMonitor e rem m st)
        = results st @ concat (map (startMiss m st) ?ns) @ concat (map (rootlyMiss m st) ?ns)
            @ map (\<lambda>(x, y). appended m x y) ended @ ?rec e" for e
  proof -
    from False have f: "\<not> hasMatch ''@webhook-rootly-'' (message m)" "?ns \<noteq> []" by simp_all
    show ?thesis
    proof (rule processMonitor_cases [OF f(1) refl f(2), of e rem st], goal_cases)
      case (1 ended recorded tail)
      note effect = this
      have "recorded = ?rec e"
      proof (cases "patchesFor st ?ns = []")
        case True
        with effect(5) [OF disjI2 [OF answered]] show ?thesis by simp
      next
        case False
        note c = effect(6) [OF disjI2 [OF answered] False]
        show ?thesis
        proof (cases "?F e")
          case (Inl failure)
          with c False show ?thesis by simp
        next
          case (Inr found)
          with c False show ?thesis by (cases found) simp_all
        qed
      qed
      with effect(1) effect(4) [OF disjI2 [OF answered]] show ?thesis by blast
    qed
  qed
  from records [of dry] obtain d where d: "mset d = mset (patchesFor st ?ns)"
    "results (processMonitor dry rem m st)
        = results st @ concat (map (startMiss m st) ?ns) @ concat (map (rootlyMiss m st) ?ns)
            @ map (\<lambda>(x, y). appended m x y) d @ ?rec dry"
    by blast
  from records [of env] obtain n where n: "mset n = mset (patchesFor st ?ns)"
    "results (processMonitor env rem m st)
        = results st @ concat (map (startMiss m st) ?ns) @ concat (map (rootlyMiss m st) ?ns)
            @ map (\<lambda>(x, y). appended m x y) n @ ?rec env"
    by blast
  have "?F dry = ?F env" using same by blast
  then have "?rec dry = ?rec env" by simp
  moreover have "mset (map (\<lambda>(x, y). appended m x y) d) = mset (map (\<lambda>(x, y). appended m x y) n)"
    using d(1) n(1) by (metis mset_map)
  ultimately show ?thesis unfolding d(2) n(2) by simp
qed

text \<open>
  Claim C8 says that a dry run sends no write and yet produces the same records as a normal
  run. The last part fails by the defect shown for claim C6: where a webhook creation of the
  normal run gets no response, the normal run records nothing for the monitor, while the dry
  run, which sends no such request, records the appended notification and the old and new
  message. The theorem runs both on that input.
\<close>

theorem dry_run_records_differ:
  "results (processMonitor env_dry (world (monitorWith ''alert @pagerduty-checkout is firing'') (Some NoResponse))
     (monitorWith ''alert @pagerduty-checkout is firing'') cached)
     = [\<lparr>monitor = monitorWith ''alert @pagerduty-checkout is firing'',
         old = Some ''@pagerduty-checkout'', new = Some ''@webhook-rootly-checkout'',
         oldMessage = None, newMessage = None, error = None\<rparr>,
        \<lparr>monitor = monitorWith ''alert @pagerduty-checkout @webhook-rootly-checkout is firing'',
         old = None, new = None, oldMessage = Some ''alert @pagerduty-checkout is firing'',
         newMessage = Some ''alert @pagerduty-checkout @webhook-rootly-checkout is firing'',
         error = None\<rparr>]
   \<and> calls (processMonitor env_dry (world (monitorWith ''alert @pagerduty-checkout is firing'') (Some NoResponse))
     (monitorWith ''alert @pagerduty-checkout is firing'') cached) = [GetMonitor ''7'']
   \<and> results (processMonitor env_normal (world (monitorWith ''alert @pagerduty-checkout is firing'') (Some NoResponse))
     (monitorWith ''alert @pagerduty-checkout is firing'') cached) = []"
  by code_simp

end
